theory Spec2Isabelle
  imports Main
begin

section \<open>Tokens and syntax tree\<close>

text \<open>
  Modelled from the spec: the modules \<open>token\<close>, \<open>lexer\<close> and \<open>ast\<close> are imported by
  \<open>parser.py\<close> and are not among the sources. The token kinds are the members of
  \<open>TOKENS\<close> and \<open>KEYWORDS\<close> that the parser names; a token has a kind, a value, a line
  number and a column.
\<close>

datatype token_type =
    NEWLINE | LEFT_BRACE | RIGHT_BRACE | COLON | COMMA | NAME | FILE_ATTRIBUTE | END_OF_FILE
  | GLOBAL | DEF | END | DEFFCT | ENDFCT | DEFDAT | ENDDAT | PUBLIC | IN | OUT

record token =
  token_type :: token_type
  val :: string
  line_number :: int
  column :: int

text \<open>
  Modelled from the spec: the node classes of \<open>ast\<close>. Each constructor lists the fields
  the spec gives the node. The parser builds a \<open>FunctionDefinition\<close> from \<open>name\<close>,
  \<open>parameters\<close>, \<open>body\<close> and (for a function) \<open>returns\<close>, and a \<open>DataDefinition\<close> from
  \<open>name\<close> alone; a field the call leaves out takes the default the spec gives it
  (no return type, not global, not public).
\<close>

datatype parameter_TYPE = TYPE_IN | TYPE_OUT

datatype Parameter = Parameter (parameter_name: string) (parameter_type: parameter_TYPE)

datatype Type = Type (type_name: string)

datatype FunctionCall = FunctionCall (call_name: string) (call_parameters: "string list")

datatype FunctionDefinition =
  FunctionDefinition (function_name: string) (function_parameters: "Parameter list")
    (function_body: "FunctionCall list") (returns: "Type option") (is_global: bool)

datatype DataDefinition = DataDefinition (data_name: string) (is_public: bool)

datatype FileAttribute = FileAttribute (attribute_value: string)

datatype SourceFile =
  SourceFile (source_name: string) (source_attributes: "FileAttribute list")
    (source_statements: "FunctionDefinition list")

datatype DataFile =
  DataFile (data_file_name: string) (data_attributes: "FileAttribute list")
    (data_statements: "DataDefinition list")

datatype Module =
  Module (name_of_module: string) (module_source_file: SourceFile) (module_data_file: DataFile)

datatype node = ModuleNode Module | SourceFileNode SourceFile | DataFileNode DataFile

text \<open>The constructor calls of the parser, with the fields they leave out at their default.\<close>

definition new_FunctionDefinition ::
  "string \<Rightarrow> Parameter list \<Rightarrow> FunctionCall list \<Rightarrow> Type option \<Rightarrow> FunctionDefinition" where
  "new_FunctionDefinition n ps b r = FunctionDefinition n ps b r False"

definition new_DataDefinition :: "string \<Rightarrow> DataDefinition" where
  "new_DataDefinition n = DataDefinition n False"

section \<open>Errors\<close>

text \<open>
  The messages of \<open>ParsingError\<close>. The two formatted messages print token kinds, whose
  text is part of the missing \<open>token\<close> module, so they keep the kinds themselves:
  \<open>Expected k found\<close> is \<open>Expected "k", found "found"\<close> and \<open>ExpectedEither a b\<close> is
  \<open>Expected "a" or "b"\<close>.
\<close>

datatype message = Expected token_type token_type | ExpectedEither token_type token_type
  | Message string

text \<open>
  \<open>ParsingError line column message\<close> is the parser's own exception. Reading a field of
  the current token when it is \<open>None\<close> raises \<open>AttributeError\<close>, reading \<open>tokens[0]\<close> of
  an empty list raises \<open>IndexError\<close>, and \<open>LexerError\<close> stands for whatever the lexer
  raises.
\<close>

datatype error = ParsingError int int message | AttributeError | IndexError | LexerError string

section \<open>The parser object\<close>

record parser =
  ast :: "node list"
  temp_ast :: "node list"
  tokens :: "token list"
  position :: nat
  current_token :: "token option"

text \<open>
  A method of the parser takes the object and returns its result, or the exception it
  raised, together with the object as the method left it.
\<close>

type_synonym 'a action = "parser \<Rightarrow> (error + 'a) \<times> parser"

definition return :: "'a \<Rightarrow> 'a action" where
  "return x s = (Inr x, s)"

definition bind :: "'a action \<Rightarrow> ('a \<Rightarrow> 'b action) \<Rightarrow> 'b action" where
  "bind m f s = (case m s of (Inl e, s') \<Rightarrow> (Inl e, s') | (Inr x, s') \<Rightarrow> f x s')"

definition Parser :: parser where
  "Parser = \<lparr>ast = [], temp_ast = [], tokens = [], position = 0, current_token = None\<rparr>"

definition initialize :: "token list \<Rightarrow> unit action" where
  "initialize toks s =
     (let s1 = s\<lparr>tokens := toks, temp_ast := [], position := 0\<rparr>
      in case toks of
           [] \<Rightarrow> (Inl IndexError, s1)
         | t # _ \<Rightarrow> (Inr (), s1\<lparr>current_token := Some (tokens s1 ! position s1)\<rparr>))"

definition error :: "message \<Rightarrow> 'a action" where
  "error msg s =
     (case current_token s of
        None \<Rightarrow> (Inl AttributeError, s)
      | Some t \<Rightarrow> (Inl (ParsingError (line_number t) (column t) msg), s))"

definition advance :: "unit action" where
  "advance s =
     (let s1 = s\<lparr>position := position s + 1\<rparr>
      in if int (position s1) > int (length (tokens s1)) - 1
         then (Inr (), s1\<lparr>current_token := None\<rparr>)
         else (Inr (), s1\<lparr>current_token := Some (tokens s1 ! position s1)\<rparr>))"

definition eat :: "token_type \<Rightarrow> token action" where
  "eat k s =
     (case current_token s of
        None \<Rightarrow> (Inl AttributeError, s)
      | Some t \<Rightarrow>
          if token_type t = k then bind advance (\<lambda>_. return t) s
          else error (Expected k (token_type t)) s)"

definition try_eat :: "token_type \<Rightarrow> bool action" where
  "try_eat k s =
     (case eat k s of
        (Inr _, s') \<Rightarrow> (Inr True, s')
      | (Inl (ParsingError _ _ _), s') \<Rightarrow> (Inr False, s')
      | (Inl e, s') \<Rightarrow> (Inl e, s'))"

definition is_current_token :: "token_type \<Rightarrow> bool action" where
  "is_current_token k s =
     (case current_token s of
        None \<Rightarrow> (Inl AttributeError, s)
      | Some t \<Rightarrow> (Inr (token_type t = k), s))"


section \<open>What every method leaves alone\<close>

text \<open>
  A measure of what is left to read: twice the tokens from the cursor on, and one more
  while there is a current token. Advancing never increases it, and consuming a token
  decreases it, also when the cursor stands at or past the end of the list.
\<close>

definition remaining :: "parser \<Rightarrow> nat" where
  "remaining s =
     2 * (length (tokens s) - position s) + (case current_token s of None \<Rightarrow> 0 | Some _ \<Rightarrow> 1)"

text \<open>
  \<open>steady m\<close>: whatever \<open>m\<close> returns or raises, it leaves the syntax trees and the token
  list as they were and moves the cursor forward only. \<open>consuming m\<close>: when \<open>m\<close> returns,
  the cursor has moved.
\<close>

definition steady_at :: "'a action \<Rightarrow> parser \<Rightarrow> bool" where
  "steady_at m s \<longleftrightarrow>
     (case m s of (r, s') \<Rightarrow>
        ast s' = ast s \<and> temp_ast s' = temp_ast s \<and> tokens s' = tokens s \<and>
        position s \<le> position s' \<and> remaining s' \<le> remaining s)"

definition steady :: "'a action \<Rightarrow> bool" where
  "steady m \<longleftrightarrow> (\<forall>s. steady_at m s)"

definition consuming :: "'a action \<Rightarrow> bool" where
  "consuming m \<longleftrightarrow>
     (\<forall>s x s'. m s = (Inr x, s') \<longrightarrow> position s < position s' \<and> remaining s' < remaining s)"

lemma steady_atD:
  assumes "steady_at m s" and "m s = (r, s')"
  shows "ast s' = ast s" and "temp_ast s' = temp_ast s" and "tokens s' = tokens s"
    and "position s \<le> position s'" and "remaining s' \<le> remaining s"
  using assms unfolding steady_at_def by auto

lemma steadyD:
  assumes "steady m" and "m s = (r, s')"
  shows "ast s' = ast s" and "temp_ast s' = temp_ast s" and "tokens s' = tokens s"
    and "position s \<le> position s'" and "remaining s' \<le> remaining s"
  using assms steady_atD [of m s r s'] unfolding steady_def by auto

lemma steady_at [simp]: "steady m \<Longrightarrow> steady_at m s"
  by (simp add: steady_def)

lemma consumingD:
  assumes "consuming m" and "m s = (Inr x, s')"
  shows "position s < position s'" and "remaining s' < remaining s"
  using assms unfolding consuming_def by blast+

lemma bind_cong [fundef_cong]:
  assumes "m = m'" and "s = s'" and "\<And>x t. m' s' = (Inr x, t) \<Longrightarrow> f x t = f' x t"
  shows "bind m f s = bind m' f' s'"
  using assms by (auto simp: bind_def split: prod.splits sum.splits)

lemma bind_Inr:
  "bind m f s = (Inr y, s'') \<longleftrightarrow> (\<exists>x s'. m s = (Inr x, s') \<and> f x s' = (Inr y, s''))"
  by (auto simp: bind_def split: prod.splits sum.splits)

lemma bind_Inl:
  "bind m f s = (Inl e, s'') \<longleftrightarrow>
     m s = (Inl e, s'') \<or> (\<exists>x s'. m s = (Inr x, s') \<and> f x s' = (Inl e, s''))"
  by (auto simp: bind_def split: prod.splits sum.splits)

lemma steady_return [intro!, simp]: "steady (return x)"
  by (simp add: steady_def steady_at_def return_def)

lemma steady_at_bind:
  assumes "steady_at m s" and "\<And>x s'. m s = (Inr x, s') \<Longrightarrow> steady_at (f x) s'"
  shows "steady_at (bind m f) s"
proof -
  obtain r s1 where m: "m s = (r, s1)" by (cases "m s")
  note a = steady_atD [OF assms(1) m]
  show ?thesis
  proof (cases r)
    case (Inl e)
    with m a show ?thesis by (simp add: bind_def steady_at_def)
  next
    case (Inr x)
    obtain r2 s2 where f: "f x s1 = (r2, s2)" by (cases "f x s1")
    from Inr m have "steady_at (f x) s1" by (simp add: assms(2))
    note b = steady_atD [OF this f]
    from Inr m f a b show ?thesis by (simp add: bind_def steady_at_def)
  qed
qed

lemma steady_at_if:
  assumes "c \<Longrightarrow> steady_at a s" and "\<not> c \<Longrightarrow> steady_at b s"
  shows "steady_at (\<lambda>s'. if c then a s' else b s') s"
  using assms by (simp add: steady_at_def)

lemma steady_bind [intro!]:
  assumes "steady m" and "\<And>x. steady (f x)"
  shows "steady (bind m f)"
  using assms by (auto simp: steady_def intro: steady_at_bind)

lemma steady_if [intro!]: "steady a \<Longrightarrow> steady b \<Longrightarrow> steady (if c then a else b)"
  by simp

lemma steady_error [intro!, simp]: "steady (error msg)"
  by (simp add: steady_def steady_at_def error_def split: option.splits)

lemma steady_advance [intro!, simp]: "steady advance"
  by (auto simp: steady_def steady_at_def advance_def remaining_def Let_def split: option.splits)

lemma steady_is_current_token [intro!, simp]: "steady (is_current_token k)"
  by (simp add: steady_def steady_at_def is_current_token_def split: option.splits)

lemma steady_eat [intro!, simp]: "steady (eat k)"
  by (auto simp: steady_def steady_at_def eat_def bind_def return_def error_def advance_def
      remaining_def Let_def split: option.splits)

lemma steady_try_eat [intro!, simp]: "steady (try_eat k)"
  using steady_eat [of k] unfolding steady_def steady_at_def try_eat_def
  by (auto split: prod.splits sum.splits error.splits)

lemma consuming_eat [intro!, simp]: "consuming (eat k)"
  by (auto simp: consuming_def eat_def bind_def return_def error_def advance_def remaining_def
      Let_def split: option.splits if_splits)

lemma consuming_bind1 [intro]:
  assumes "consuming m" and "\<And>x. steady (f x)"
  shows "consuming (bind m f)"
  unfolding consuming_def
proof (intro allI impI)
  fix s y s''
  assume "bind m f s = (Inr y, s'')"
  then obtain x s' where m: "m s = (Inr x, s')" and f: "f x s' = (Inr y, s'')"
    by (auto simp: bind_Inr)
  from consumingD [OF assms(1) m] steadyD(4,5) [OF assms(2) f]
  show "position s < position s'' \<and> remaining s'' < remaining s" by simp
qed

lemma consuming_bind2 [intro]:
  assumes "steady m" and "\<And>x. consuming (f x)"
  shows "consuming (bind m f)"
  unfolding consuming_def
proof (intro allI impI)
  fix s y s''
  assume "bind m f s = (Inr y, s'')"
  then obtain x s' where m: "m s = (Inr x, s')" and f: "f x s' = (Inr y, s'')"
    by (auto simp: bind_Inr)
  from steadyD(4,5) [OF assms(1) m] consumingD [OF assms(2) f]
  show "position s < position s'' \<and> remaining s'' < remaining s" by simp
qed

lemma try_eat_True:
  assumes "try_eat k s = (Inr True, s')"
  shows "position s < position s'" and "remaining s' < remaining s"
proof -
  from assms obtain t where "eat k s = (Inr t, s')"
    by (auto simp: try_eat_def split: prod.splits sum.splits error.splits)
  from consumingD [OF consuming_eat this]
  show "position s < position s'" and "remaining s' < remaining s" by simp_all
qed

section \<open>The grammar\<close>

function skip_newlines :: "unit action" where
  "skip_newlines s =
     bind (try_eat NEWLINE) (\<lambda>more s'. if more then skip_newlines s' else return () s') s"
  by pat_completeness auto
termination
  by (relation "measure remaining") (auto simp: try_eat_True)

declare skip_newlines.simps [simp del]

lemma steady_skip_newlines [intro!, simp]: "steady skip_newlines"
proof -
  have "steady_at skip_newlines s" for s
  proof (induction s rule: skip_newlines.induct)
    case (1 s)
    show ?case
      by (subst skip_newlines.simps, rule steady_at_bind)
        (auto intro!: steady_at_if intro: "1.IH")
  qed
  then show ?thesis by (simp add: steady_def)
qed

text \<open>
  \<open>_header\<close>: the \<open>while\<close> loop with the list it appends to, then the method. The test
  of the loop reads the kind of the current token, as \<open>_is_current_token\<close> does.
\<close>

function header_loop :: "FileAttribute list \<Rightarrow> FileAttribute list action" where
  "header_loop attributes s =
     bind (is_current_token FILE_ATTRIBUTE) (\<lambda>more s1.
       if more then
         bind (eat FILE_ATTRIBUTE) (\<lambda>a.
         bind (eat NEWLINE) (\<lambda>_.
         bind skip_newlines (\<lambda>_.
         header_loop (attributes @ [FileAttribute (val a)])))) s1
       else return attributes s1) s"
  by pat_completeness auto
termination
proof (relation "measure (\<lambda>(attributes, s). remaining s)", goal_cases)
  case 1
  show ?case by simp
next
  case (2 attributes s more s1 a s2 u s3 v s4)
  from 2 have "remaining s1 \<le> remaining s" "remaining s2 < remaining s1"
    "remaining s3 \<le> remaining s2" "remaining s4 \<le> remaining s3"
    by (auto dest: steadyD [OF steady_is_current_token] consumingD [OF consuming_eat]
        steadyD [OF steady_eat] steadyD [OF steady_skip_newlines])
  then show ?case by simp
qed

declare header_loop.simps [simp del]

definition header :: "FileAttribute list action" where
  "header = header_loop []"

lemma steady_header_loop [intro!, simp]: "steady (header_loop attributes)"
proof -
  have "steady_at (header_loop attributes) s" for s
  proof (induction attributes s rule: header_loop.induct)
    case (1 attributes s)
    show ?case
      by (subst header_loop.simps, rule steady_at_bind)
        (auto intro!: steady_at_if steady_at_bind intro: "1.IH")
  qed
  then show ?thesis by (simp add: steady_def)
qed

lemma steady_header [intro!, simp]: "steady header"
  by (simp add: header_def)

text \<open>
  \<open>_param_def\<close>. The members of \<open>Parameter.TYPE\<close> are taken to be true values, as the
  spec has a parameter with a direction parse: \<open>not parameter_type\<close> holds exactly when
  neither keyword was there.
\<close>

definition param_def :: "Parameter action" where
  "param_def =
     bind (eat NAME) (\<lambda>name.
     bind (eat COLON) (\<lambda>_.
     bind (bind (try_eat IN) (\<lambda>is_in.
             if is_in then return (Some TYPE_IN)
             else bind (try_eat OUT) (\<lambda>is_out.
               if is_out then return (Some TYPE_OUT) else return None))) (\<lambda>parameter_type.
     case parameter_type of
       None \<Rightarrow> error (ExpectedEither IN OUT)
     | Some direction \<Rightarrow> return (Parameter (val name) direction))))"

lemma steady_case_option [intro!]:
  "steady a \<Longrightarrow> (\<And>y. steady (b y)) \<Longrightarrow> steady (case x of None \<Rightarrow> a | Some y \<Rightarrow> b y)"
  by (cases x) simp_all

lemma steady_param_def [intro!, simp]: "steady param_def"
  unfolding param_def_def by (intro steady_bind steady_if steady_case_option) simp_all

lemma consuming_param_def [intro!, simp]: "consuming param_def"
  unfolding param_def_def
  by (rule consuming_bind1) auto

function params_def_loop :: "Parameter list \<Rightarrow> Parameter list action" where
  "params_def_loop parameters s =
     bind (try_eat COMMA) (\<lambda>more s1.
       if more then
         bind param_def (\<lambda>p. params_def_loop (parameters @ [p])) s1
       else return parameters s1) s"
  by pat_completeness auto
termination
proof (relation "measure (\<lambda>(parameters, s). remaining s)", goal_cases)
  case 1
  show ?case by simp
next
  case (2 parameters s more s1 p s2)
  from 2 have "remaining s1 < remaining s" "remaining s2 \<le> remaining s1"
    by (auto dest: try_eat_True steadyD [OF steady_param_def])
  then show ?case by simp
qed

declare params_def_loop.simps [simp del]

lemma steady_params_def_loop [intro!, simp]: "steady (params_def_loop parameters)"
proof -
  have "steady_at (params_def_loop parameters) s" for s
  proof (induction parameters s rule: params_def_loop.induct)
    case (1 parameters s)
    show ?case
      by (subst params_def_loop.simps, rule steady_at_bind)
        (auto intro!: steady_at_if steady_at_bind intro: "1.IH")
  qed
  then show ?thesis by (simp add: steady_def)
qed

definition params_def :: "Parameter list action" where
  "params_def =
     bind (is_current_token NAME) (\<lambda>is_name.
       if \<not> is_name then return []
       else bind param_def (\<lambda>p. params_def_loop [p]))"

lemma steady_params_def [intro!, simp]: "steady params_def"
  unfolding params_def_def by (intro steady_bind steady_if) simp_all

definition param :: "string action" where
  "param = bind (eat NAME) (\<lambda>t. return (val t))"

lemma steady_param [intro!, simp]: "steady param"
  unfolding param_def by (intro steady_bind) simp_all

function params_loop :: "string list \<Rightarrow> string list action" where
  "params_loop parameters s =
     bind (try_eat COMMA) (\<lambda>more s1.
       if more then
         bind param (\<lambda>p. params_loop (parameters @ [p])) s1
       else return parameters s1) s"
  by pat_completeness auto
termination
proof (relation "measure (\<lambda>(parameters, s). remaining s)", goal_cases)
  case 1
  show ?case by simp
next
  case (2 parameters s more s1 p s2)
  from 2 have "remaining s1 < remaining s" "remaining s2 \<le> remaining s1"
    by (auto dest: try_eat_True steadyD [OF steady_param])
  then show ?case by simp
qed

declare params_loop.simps [simp del]

lemma steady_params_loop [intro!, simp]: "steady (params_loop parameters)"
proof -
  have "steady_at (params_loop parameters) s" for s
  proof (induction parameters s rule: params_loop.induct)
    case (1 parameters s)
    show ?case
      by (subst params_loop.simps, rule steady_at_bind)
        (auto intro!: steady_at_if steady_at_bind intro: "1.IH")
  qed
  then show ?thesis by (simp add: steady_def)
qed

definition params :: "string list action" where
  "params =
     bind (is_current_token NAME) (\<lambda>is_name.
       if \<not> is_name then return []
       else bind param (\<lambda>p. params_loop [p]))"

lemma steady_params [intro!, simp]: "steady params"
  unfolding params_def by (intro steady_bind steady_if) simp_all

definition mod_call :: "FunctionCall action" where
  "mod_call =
     bind (eat NAME) (\<lambda>function.
     bind (eat LEFT_BRACE) (\<lambda>_.
     bind params (\<lambda>parameters.
     bind (eat RIGHT_BRACE) (\<lambda>_.
     bind (eat NEWLINE) (\<lambda>_.
     return (FunctionCall (val function) parameters))))))"

lemma steady_mod_call [intro!, simp]: "steady mod_call"
  unfolding mod_call_def by (intro steady_bind) simp_all

lemma consuming_mod_call [intro!, simp]: "consuming mod_call"
  unfolding mod_call_def by (rule consuming_bind1) auto

function body_loop :: "FunctionCall list \<Rightarrow> FunctionCall list action" where
  "body_loop body s =
     bind skip_newlines (\<lambda>_.
     bind (is_current_token NAME) (\<lambda>is_name s1.
       if is_name then
         bind mod_call (\<lambda>c. body_loop (body @ [c])) s1
       else return body s1)) s"
  by pat_completeness auto
termination
proof (relation "measure (\<lambda>(body, s). remaining s)", goal_cases)
  case 1
  show ?case by simp
next
  case (2 body s u s1 is_name s2 c s3)
  from 2 have "remaining s1 \<le> remaining s" "remaining s2 \<le> remaining s1"
    "remaining s3 < remaining s2"
    by (auto dest: steadyD [OF steady_skip_newlines] steadyD [OF steady_is_current_token]
        consumingD [OF consuming_mod_call])
  then show ?case by simp
qed

declare body_loop.simps [simp del]

lemma steady_body_loop [intro!, simp]: "steady (body_loop body)"
proof -
  have "steady_at (body_loop body) s" for s
  proof (induction body s rule: body_loop.induct)
    case (1 body s)
    show ?case
      by (subst body_loop.simps, rule steady_at_bind)
        (auto intro!: steady_at_if steady_at_bind intro: "1.IH")
  qed
  then show ?thesis by (simp add: steady_def)
qed

definition body :: "FunctionCall list action" where
  "body = body_loop []"

lemma steady_body [intro!, simp]: "steady body"
  by (simp add: body_def)

text \<open>
  \<open>_mod_def\<close> and \<open>_fnc_def\<close>. Both read the optional \<open>GLOBAL\<close> into \<open>global_definition\<close>
  and build the node without it.
\<close>

definition mod_def :: "FunctionDefinition option action" where
  "mod_def =
     bind skip_newlines (\<lambda>_.
     bind (try_eat GLOBAL) (\<lambda>global_definition.
     bind (is_current_token DEF) (\<lambda>is_def.
       if \<not> is_def then return None
       else
         bind (eat DEF) (\<lambda>_.
         bind (eat NAME) (\<lambda>name.
         bind (eat LEFT_BRACE) (\<lambda>_.
         bind params_def (\<lambda>parameters.
         bind (eat RIGHT_BRACE) (\<lambda>_.
         bind (eat NEWLINE) (\<lambda>_.
         bind skip_newlines (\<lambda>_.
         bind body (\<lambda>body.
         bind (eat END) (\<lambda>_.
         bind skip_newlines (\<lambda>_.
         return (Some (new_FunctionDefinition (val name) parameters body None)))))))))))))))"

definition fnc_def :: "FunctionDefinition option action" where
  "fnc_def =
     bind skip_newlines (\<lambda>_.
     bind (try_eat GLOBAL) (\<lambda>global_definition.
     bind (is_current_token DEFFCT) (\<lambda>is_deffct.
       if \<not> is_deffct then return None
       else
         bind (eat DEFFCT) (\<lambda>_.
         bind (eat NAME) (\<lambda>return_type.
         bind (eat NAME) (\<lambda>name.
         bind (eat LEFT_BRACE) (\<lambda>_.
         bind params_def (\<lambda>parameters.
         bind (eat RIGHT_BRACE) (\<lambda>_.
         bind (eat NEWLINE) (\<lambda>_.
         bind skip_newlines (\<lambda>_.
         bind body (\<lambda>body.
         bind (eat ENDFCT) (\<lambda>_.
         bind skip_newlines (\<lambda>_.
         return (Some (new_FunctionDefinition (val name) parameters body
                         (Some (Type (val return_type)))))))))))))))))))"

text \<open>\<open>_dat_def\<close> reads the optional \<open>PUBLIC\<close> into \<open>public_definition\<close> and drops it.\<close>

definition dat_def :: "DataDefinition action" where
  "dat_def =
     bind skip_newlines (\<lambda>_.
     bind (eat DEFDAT) (\<lambda>_.
     bind (eat NAME) (\<lambda>name.
     bind (try_eat PUBLIC) (\<lambda>public_definition.
     bind (eat NEWLINE) (\<lambda>_.
     bind skip_newlines (\<lambda>_.
     bind (eat ENDDAT) (\<lambda>_.
     bind skip_newlines (\<lambda>_.
     return (new_DataDefinition (val name))))))))))"

lemma steady_mod_def [intro!, simp]: "steady mod_def"
  unfolding mod_def_def by (intro steady_bind steady_if) simp_all

lemma steady_fnc_def [intro!, simp]: "steady fnc_def"
  unfolding fnc_def_def by (intro steady_bind steady_if) simp_all

lemma steady_dat_def [intro!, simp]: "steady dat_def"
  unfolding dat_def_def by (intro steady_bind steady_if) simp_all

lemma consuming_dat_def [intro!, simp]: "consuming dat_def"
  unfolding dat_def_def by (rule consuming_bind2, simp, rule consuming_bind1) auto

text \<open>
  \<open>any(self._is_current_token(token) for token in kinds)\<close>: the kinds are tried in
  order, up to the first that matches.
\<close>

fun any_is_current_token :: "token_type list \<Rightarrow> bool action" where
  "any_is_current_token [] = return False"
| "any_is_current_token (k # ks) =
     bind (is_current_token k) (\<lambda>found.
       if found then return True else any_is_current_token ks)"

lemma steady_any_is_current_token [intro!, simp]: "steady (any_is_current_token ks)"
  by (induction ks) auto

section \<open>The primitives at a known current token\<close>

text \<open>\<open>consumed s\<close> is the parser after \<open>_advance\<close>.\<close>

definition consumed :: "parser \<Rightarrow> parser" where
  "consumed s = snd (advance s)"

lemma bind_at: "m s = (Inr x, s') \<Longrightarrow> bind m f s = f x s'"
  by (simp add: bind_def)

lemma bind_raises: "m s = (Inl e, s') \<Longrightarrow> bind m f s = (Inl e, s')"
  by (simp add: bind_def)

lemma eat_Some:
  "current_token s = Some t \<Longrightarrow>
   eat k s = (if token_type t = k then (Inr t, consumed s)
              else (Inl (ParsingError (line_number t) (column t) (Expected k (token_type t))), s))"
  by (simp add: eat_def consumed_def bind_def return_def error_def advance_def Let_def)

lemma try_eat_Some:
  "current_token s = Some t \<Longrightarrow>
   try_eat k s = (if token_type t = k then (Inr True, consumed s) else (Inr False, s))"
  by (simp add: try_eat_def eat_Some)

lemma is_current_token_Some:
  "current_token s = Some t \<Longrightarrow> is_current_token k s = (Inr (token_type t = k), s)"
  by (simp add: is_current_token_def)

lemma skip_newlines_noop:
  "current_token s = Some t \<Longrightarrow> token_type t \<noteq> NEWLINE \<Longrightarrow> skip_newlines s = (Inr (), s)"
  by (subst skip_newlines.simps) (simp add: try_eat_Some bind_def return_def)

lemma consumed_less:
  "current_token s = Some t \<Longrightarrow> remaining (consumed s) < remaining s"
  by (auto simp: consumed_def advance_def remaining_def Let_def)

lemma any_is_current_token_True:
  assumes "any_is_current_token ks s = (Inr True, s')"
  shows "s' = s \<and> (\<exists>t. current_token s = Some t \<and> token_type t \<in> set ks)"
  using assms
proof (induction ks)
  case Nil
  then show ?case by (simp add: return_def)
next
  case (Cons k ks)
  then show ?case
    by (cases "current_token s")
      (auto simp: is_current_token_def bind_def return_def split: if_splits)
qed

text \<open>
  One round of the loop of \<open>_source_file\<close> consumes a token: \<open>_mod_def\<close> does at
  \<open>GLOBAL\<close> and at \<open>DEF\<close>, and at \<open>DEFFCT\<close> it returns \<open>None\<close> where it stands and
  \<open>_fnc_def\<close> does.
\<close>

definition consuming_at :: "'a action \<Rightarrow> parser \<Rightarrow> bool" where
  "consuming_at m s \<longleftrightarrow>
     (\<forall>x s'. m s = (Inr x, s') \<longrightarrow> position s < position s' \<and> remaining s' < remaining s)"

lemma consuming_at [simp]: "consuming m \<Longrightarrow> consuming_at m s"
  by (simp add: consuming_def consuming_at_def)

lemma consuming_atD:
  assumes "consuming_at m s" and "m s = (Inr x, s')"
  shows "position s < position s'" and "remaining s' < remaining s"
  using assms unfolding consuming_at_def by blast+

lemma consuming_at_skip:
  assumes "m s = (Inr x, s)" and "consuming_at (f x) s"
  shows "consuming_at (bind m f) s"
  using assms by (simp add: consuming_at_def bind_def)

lemma consuming_at_after:
  assumes "m s = (Inr x, s1)" and "position s < position s1" and "remaining s1 < remaining s"
    and "steady (f x)"
  shows "consuming_at (bind m f) s"
  unfolding consuming_at_def
proof (intro allI impI)
  fix y s'
  assume "bind m f s = (Inr y, s')"
  with assms(1) have "f x s1 = (Inr y, s')" by (simp add: bind_def)
  from steadyD(4,5) [OF assms(4) this] assms(2,3)
  show "position s < position s' \<and> remaining s' < remaining s" by simp
qed

lemma consumed_position [simp]: "position (consumed s) = Suc (position s)"
  by (simp add: consumed_def advance_def Let_def)

lemma mod_def_consumes:
  assumes t: "current_token s = Some t"
    and k: "token_type t = GLOBAL \<or> token_type t = DEF"
  shows "consuming_at mod_def s"
proof -
  from t k have skip: "skip_newlines s = (Inr (), s)"
    by (auto intro: skip_newlines_noop)
  show ?thesis
  proof (cases "token_type t = GLOBAL")
    case True
    with t have g: "try_eat GLOBAL s = (Inr True, consumed s)" by (simp add: try_eat_Some)
    show ?thesis
      unfolding mod_def_def
      by (rule consuming_at_skip, rule skip, rule consuming_at_after, rule g)
        (auto simp: consumed_less [OF t])
  next
    case False
    with k have def: "token_type t = DEF" by simp
    from t False have g: "try_eat GLOBAL s = (Inr False, s)" by (simp add: try_eat_Some)
    from t def have c: "is_current_token DEF s = (Inr True, s)"
      by (simp add: is_current_token_Some)
    show ?thesis
      unfolding mod_def_def
      by (rule consuming_at_skip, rule skip, rule consuming_at_skip, rule g,
          rule consuming_at_skip, rule c, simp, rule consuming_at, rule consuming_bind1) auto
  qed
qed

lemma mod_def_at_DEFFCT:
  assumes "current_token s = Some t" and "token_type t = DEFFCT"
  shows "mod_def s = (Inr None, s)"
proof -
  from assms have "skip_newlines s = (Inr (), s)" by (auto intro: skip_newlines_noop)
  moreover from assms have "try_eat GLOBAL s = (Inr False, s)" by (simp add: try_eat_Some)
  moreover from assms have "is_current_token DEF s = (Inr False, s)"
    by (simp add: is_current_token_Some)
  ultimately show ?thesis
    unfolding mod_def_def by (simp add: bind_def return_def)
qed

lemma fnc_def_consumes:
  assumes t: "current_token s = Some t" and k: "token_type t = DEFFCT"
  shows "consuming_at fnc_def s"
proof -
  from t k have skip: "skip_newlines s = (Inr (), s)" by (auto intro: skip_newlines_noop)
  from t k have g: "try_eat GLOBAL s = (Inr False, s)" by (simp add: try_eat_Some)
  from t k have c: "is_current_token DEFFCT s = (Inr True, s)"
    by (simp add: is_current_token_Some)
  show ?thesis
    unfolding fnc_def_def
    by (rule consuming_at_skip, rule skip, rule consuming_at_skip, rule g,
        rule consuming_at_skip, rule c, simp, rule consuming_at, rule consuming_bind1) auto
qed

lemma source_file_round:
  assumes c: "any_is_current_token [GLOBAL, DEF, DEFFCT] s = (Inr True, s1)"
    and m: "mod_def s1 = (Inr d, s2)"
    and f: "fnc_def s2 = (Inr d', s3)"
  shows "remaining s3 < remaining s"
proof -
  from any_is_current_token_True [OF c] obtain t where
    s1: "s1 = s" and t: "current_token s = Some t"
    and k: "token_type t = GLOBAL \<or> token_type t = DEF \<or> token_type t = DEFFCT"
    by auto
  show ?thesis
  proof (cases "token_type t = DEFFCT")
    case True
    with t m s1 have "s2 = s" by (simp add: mod_def_at_DEFFCT)
    with consuming_atD(2) [OF fnc_def_consumes [OF t True]] f show ?thesis by simp
  next
    case False
    with k have "token_type t = GLOBAL \<or> token_type t = DEF" by simp
    from consuming_atD(2) [OF mod_def_consumes [OF t this]] m s1
    have "remaining s2 < remaining s" by simp
    with steadyD(5) [OF steady_fnc_def f] show ?thesis by simp
  qed
qed

text \<open>
  The loops of \<open>_source_file\<close> and \<open>_data_file\<close>, with the list they append to. A round
  of the first runs \<open>_mod_def\<close>, then \<open>_fnc_def\<close>, and appends those of the two results
  that are not \<open>None\<close>, in this order (\<open>filter(None, definitions)\<close>; a node is a true
  value).
\<close>

function source_file_loop :: "FunctionDefinition list \<Rightarrow> FunctionDefinition list action" where
  "source_file_loop statements s =
     bind (any_is_current_token [GLOBAL, DEF, DEFFCT]) (\<lambda>more s1.
       if more then
         bind mod_def (\<lambda>m.
         bind fnc_def (\<lambda>f.
         source_file_loop (statements @ List.map_filter (\<lambda>definition. definition) [m, f]))) s1
       else return statements s1) s"
  by pat_completeness auto
termination
proof (relation "measure (\<lambda>(statements, s). remaining s)", goal_cases)
  case 1
  show ?case by simp
next
  case (2 statements s more s1 m s2 f s3)
  then show ?case by (simp add: source_file_round)
qed

declare source_file_loop.simps [simp del]

function data_file_loop :: "DataDefinition list \<Rightarrow> DataDefinition list action" where
  "data_file_loop statements s =
     bind (is_current_token DEFDAT) (\<lambda>more s1.
       if more then
         bind dat_def (\<lambda>d. data_file_loop (statements @ [d])) s1
       else return statements s1) s"
  by pat_completeness auto
termination
proof (relation "measure (\<lambda>(statements, s). remaining s)", goal_cases)
  case 1
  show ?case by simp
next
  case (2 statements s more s1 d s2)
  from 2 have "remaining s1 \<le> remaining s" "remaining s2 < remaining s1"
    by (auto dest: steadyD [OF steady_is_current_token] consumingD [OF consuming_dat_def])
  then show ?case by simp
qed

declare data_file_loop.simps [simp del]

definition source_file :: "string \<Rightarrow> SourceFile action" where
  "source_file name =
     bind header (\<lambda>attributes.
     bind (source_file_loop []) (\<lambda>statements.
       if statements = [] then error (Message ''No module or function definition found'')
       else
         bind (eat END_OF_FILE) (\<lambda>_.
         return (SourceFile name attributes statements))))"

definition data_file :: "string \<Rightarrow> DataFile action" where
  "data_file name =
     bind header (\<lambda>attributes.
     bind (data_file_loop []) (\<lambda>statements.
       if statements = [] then error (Message ''No data definition found'')
       else if length statements > 1 then error (Message ''More than one data definition found'')
       else
         bind (eat END_OF_FILE) (\<lambda>_.
         return (DataFile name attributes statements))))"

text \<open>
  The entry points. The lexer is not among the sources: \<open>lexer text\<close> stands for
  \<open>Lexer(text).generate_tokens()\<close>, which returns the tokens or raises.
\<close>

definition generate_tokens :: "(string \<Rightarrow> error + token list) \<Rightarrow> string \<Rightarrow> token list action" where
  "generate_tokens lexer text s =
     (case lexer text of Inl e \<Rightarrow> (Inl e, s) | Inr toks \<Rightarrow> (Inr toks, s))"

definition ast_append :: "node \<Rightarrow> unit action" where
  "ast_append n s = (Inr (), s\<lparr>ast := ast s @ [n]\<rparr>)"

definition add_module ::
  "(string \<Rightarrow> error + token list) \<Rightarrow> string \<Rightarrow> string \<Rightarrow> string \<Rightarrow> unit action" where
  "add_module lexer module_name' source_text data_text =
     bind (generate_tokens lexer source_text) (\<lambda>source_tokens.
     bind (generate_tokens lexer data_text) (\<lambda>data_tokens.
     bind (initialize source_tokens) (\<lambda>_.
     bind (source_file module_name') (\<lambda>source_file'.
     bind (initialize data_tokens) (\<lambda>_.
     bind (data_file module_name') (\<lambda>data_file'.
     ast_append (ModuleNode (Module module_name' source_file' data_file'))))))))"

definition add_source_file ::
  "(string \<Rightarrow> error + token list) \<Rightarrow> string \<Rightarrow> string \<Rightarrow> unit action" where
  "add_source_file lexer name source_text =
     bind (generate_tokens lexer source_text) (\<lambda>source_tokens.
     bind (initialize source_tokens) (\<lambda>_.
     bind (source_file name) (\<lambda>source_file'.
     ast_append (SourceFileNode source_file'))))"

definition add_data_file ::
  "(string \<Rightarrow> error + token list) \<Rightarrow> string \<Rightarrow> string \<Rightarrow> unit action" where
  "add_data_file lexer name data_text =
     bind (generate_tokens lexer data_text) (\<lambda>data_tokens.
     bind (initialize data_tokens) (\<lambda>_.
     bind (data_file name) (\<lambda>data_file'.
     ast_append (DataFileNode data_file'))))"

section \<open>The loops and the file productions leave the trees alone\<close>

lemma steady_source_file_loop [intro!, simp]: "steady (source_file_loop statements)"
proof -
  have "steady_at (source_file_loop statements) s" for s
  proof (induction statements s rule: source_file_loop.induct)
    case (1 statements s)
    show ?case
      by (subst source_file_loop.simps, rule steady_at_bind)
        (auto intro!: steady_at_if steady_at_bind intro: "1.IH")
  qed
  then show ?thesis by (simp add: steady_def)
qed

lemma steady_data_file_loop [intro!, simp]: "steady (data_file_loop statements)"
proof -
  have "steady_at (data_file_loop statements) s" for s
  proof (induction statements s rule: data_file_loop.induct)
    case (1 statements s)
    show ?case
      by (subst data_file_loop.simps, rule steady_at_bind)
        (auto intro!: steady_at_if steady_at_bind intro: "1.IH")
  qed
  then show ?thesis by (simp add: steady_def)
qed

lemma steady_source_file [intro!, simp]: "steady (source_file name)"
  unfolding source_file_def by (intro steady_bind steady_if) simp_all

lemma steady_data_file [intro!, simp]: "steady (data_file name)"
  unfolding data_file_def by (intro steady_bind steady_if) simp_all

section \<open>Running the parser on a given token list\<close>

text \<open>\<open>Token\<close> builds a token as the lexer does, from kind, value, line and column.\<close>

definition Token :: "token_type \<Rightarrow> string \<Rightarrow> int \<Rightarrow> int \<Rightarrow> token" where
  "Token k v l c = \<lparr>token_type = k, val = v, line_number = l, column = c\<rparr>"

lemmas run = bind_def return_def initialize_def error_def advance_def eat_def try_eat_def
  is_current_token_def Let_def skip_newlines.simps header_def header_loop.simps
  param_def_def params_def_loop.simps params_def_def param_def params_loop.simps params_def
  mod_call_def body_loop.simps body_def mod_def_def fnc_def_def dat_def_def
  source_file_loop.simps data_file_loop.simps source_file_def data_file_def
  generate_tokens_def ast_append_def add_module_def add_source_file_def add_data_file_def
  new_FunctionDefinition_def new_DataDefinition_def List.map_filter_def Token_def

section \<open>The minimal procedure\<close>

text \<open>
  C3. The tokens of \<open>DEF foo()\n END\n\<close> are \<open>DEF\<close>, \<open>NAME foo\<close>, \<open>(\<close>, \<open>)\<close>, a newline,
  \<open>END\<close>, a newline and the end of file. Whatever their positions, and whatever values
  the tokens other than the name carry, parsing them as a source file returns a
  \<open>SourceFile\<close> whose only statement is the \<open>FunctionDefinition\<close> named \<open>foo\<close> with no
  parameters, an empty body, no return type and \<open>is_global\<close> false.
\<close>

theorem minimal_procedure:
  "fst (bind (initialize
      [Token DEF v0 l0 c0, Token NAME ''foo'' l1 c1, Token LEFT_BRACE v2 l2 c2,
       Token RIGHT_BRACE v3 l3 c3, Token NEWLINE v4 l4 c4, Token END v5 l5 c5,
       Token NEWLINE v6 l6 c6, Token END_OF_FILE v7 l7 c7])
      (\<lambda>_. source_file name) s)
   = Inr (SourceFile name [] [FunctionDefinition ''foo'' [] [] None False])"
  by (simp add: run)

section \<open>The modifiers that are read and dropped\<close>

text \<open>
  C2. \<open>_mod_def\<close> and \<open>_fnc_def\<close> never pass \<open>global_definition\<close> on: the tokens of
  \<open>GLOBAL DEF foo()\n END\n\<close> parse to the same node as those of the minimal procedure,
  with \<open>is_global\<close> false although the definition starts with \<open>GLOBAL\<close>.
\<close>

theorem global_modifier_dropped:
  "fst (bind (initialize
      [Token GLOBAL v l c, Token DEF v0 l0 c0, Token NAME ''foo'' l1 c1,
       Token LEFT_BRACE v2 l2 c2, Token RIGHT_BRACE v3 l3 c3, Token NEWLINE v4 l4 c4,
       Token END v5 l5 c5, Token NEWLINE v6 l6 c6, Token END_OF_FILE v7 l7 c7])
      (\<lambda>_. source_file name) s)
   = Inr (SourceFile name [] [FunctionDefinition ''foo'' [] [] None False])"
  by (simp add: run)

text \<open>
  C5. \<open>_dat_def\<close> never passes \<open>public_definition\<close> on: the tokens of
  \<open>DEFDAT foo PUBLIC\n ENDDAT\n\<close> parse to a \<open>DataDefinition\<close> with \<open>is_public\<close> false
  although \<open>PUBLIC\<close> follows the name.
\<close>

theorem public_modifier_dropped:
  "fst (bind (initialize
      [Token DEFDAT v0 l0 c0, Token NAME ''foo'' l1 c1, Token PUBLIC v2 l2 c2,
       Token NEWLINE v3 l3 c3, Token ENDDAT v4 l4 c4, Token NEWLINE v5 l5 c5,
       Token END_OF_FILE v6 l6 c6])
      (\<lambda>_. data_file name) s)
   = Inr (DataFile name [] [DataDefinition ''foo'' False])"
  by (simp add: run)

section \<open>The speculative match\<close>

text \<open>
  C6. At a current token, \<open>_try_eat\<close> of another kind returns \<open>False\<close> and leaves the
  parser as it was; \<open>_try_eat\<close> of the token's kind returns \<open>True\<close> and moves the cursor
  by exactly one position, to the next token of the list, or to \<open>None\<close> at its end.
\<close>

theorem try_eat_exact:
  assumes "current_token s = Some t"
  shows "(token_type t \<noteq> k \<longrightarrow> try_eat k s = (Inr False, s)) \<and>
         (token_type t = k \<longrightarrow>
            try_eat k s =
              (Inr True,
               s\<lparr>position := position s + 1,
                 current_token :=
                   (if position s + 1 < length (tokens s)
                    then Some (tokens s ! (position s + 1)) else None)\<rparr>))"
  using assms by (auto simp: try_eat_Some consumed_def advance_def Let_def)

theorem try_eat_exact_witness:
  "try_eat COMMA
     \<lparr>ast = [], temp_ast = [], tokens = [Token NAME ''a'' 1 1, Token END_OF_FILE [] 1 2],
      position = 0, current_token = Some (Token NAME ''a'' 1 1)\<rparr>
   = (Inr False,
      \<lparr>ast = [], temp_ast = [], tokens = [Token NAME ''a'' 1 1, Token END_OF_FILE [] 1 2],
       position = 0, current_token = Some (Token NAME ''a'' 1 1)\<rparr>) \<and>
   try_eat NAME
     \<lparr>ast = [], temp_ast = [], tokens = [Token NAME ''a'' 1 1, Token END_OF_FILE [] 1 2],
      position = 0, current_token = Some (Token NAME ''a'' 1 1)\<rparr>
   = (Inr True,
      \<lparr>ast = [], temp_ast = [], tokens = [Token NAME ''a'' 1 1, Token END_OF_FILE [] 1 2],
       position = 1, current_token = Some (Token END_OF_FILE [] 1 2)\<rparr>)"
  using
    try_eat_exact [of "\<lparr>ast = [], temp_ast = [],
      tokens = [Token NAME ''a'' 1 1, Token END_OF_FILE [] 1 2],
      position = 0, current_token = Some (Token NAME ''a'' 1 1)\<rparr>" "Token NAME ''a'' 1 1" COMMA]
    try_eat_exact [of "\<lparr>ast = [], temp_ast = [],
      tokens = [Token NAME ''a'' 1 1, Token END_OF_FILE [] 1 2],
      position = 0, current_token = Some (Token NAME ''a'' 1 1)\<rparr>" "Token NAME ''a'' 1 1" NAME]
  by (simp add: Token_def)

section \<open>The modifier consumed while probing for a module definition\<close>

text \<open>\<open>started toks\<close> is a new parser after \<open>_initialize\<close> on a non-empty token list.\<close>

definition started :: "token list \<Rightarrow> parser" where
  "started toks = snd (initialize toks Parser)"

lemma mod_def_at_GLOBAL:
  assumes "current_token s = Some t" and "token_type t = GLOBAL"
    and "current_token (consumed s) = Some t'" and "token_type t' \<noteq> DEF"
  shows "mod_def s = (Inr None, consumed s)"
proof -
  from assms have "skip_newlines s = (Inr (), s)" by (auto intro: skip_newlines_noop)
  moreover from assms have "try_eat GLOBAL s = (Inr True, consumed s)"
    by (simp add: try_eat_Some)
  moreover from assms have "is_current_token DEF (consumed s) = (Inr False, consumed s)"
    by (simp add: is_current_token_Some)
  ultimately show ?thesis
    unfolding mod_def_def by (simp add: bind_def return_def)
qed

lemma consumed_within:
  "position s + 1 < length (tokens s) \<Longrightarrow>
   consumed s = s\<lparr>position := position s + 1,
                  current_token := Some (tokens s ! (position s + 1))\<rparr>"
  by (simp add: consumed_def advance_def Let_def)

text \<open>
  C4. At \<open>GLOBAL\<close> followed by a token that is not \<open>DEF\<close>, \<open>_mod_def\<close> returns \<open>None\<close> with
  the cursor on the token after \<open>GLOBAL\<close>, and the round of the loop of \<open>_source_file\<close>
  runs \<open>_fnc_def\<close> from there, after the modifier.
\<close>

theorem mod_def_abandons_after_GLOBAL:
  assumes "current_token s = Some t" and "token_type t = GLOBAL"
    and "position s + 1 < length (tokens s)"
    and "token_type (tokens s ! (position s + 1)) \<noteq> DEF"
  shows "mod_def s =
           (Inr None,
            s\<lparr>position := position s + 1,
              current_token := Some (tokens s ! (position s + 1))\<rparr>) \<and>
         source_file_loop statements s =
           bind fnc_def (\<lambda>f.
             source_file_loop (statements @ List.map_filter (\<lambda>definition. definition) [None, f]))
             (s\<lparr>position := position s + 1,
                current_token := Some (tokens s ! (position s + 1))\<rparr>)"
proof -
  let ?s' = "s\<lparr>position := position s + 1,
                current_token := Some (tokens s ! (position s + 1))\<rparr>"
  have c: "consumed s = ?s'" using assms(3) by (rule consumed_within)
  have m: "mod_def s = (Inr None, ?s')"
    using mod_def_at_GLOBAL [OF assms(1,2), of "tokens s ! (position s + 1)"] assms(4) c
    by simp
  have "any_is_current_token [GLOBAL, DEF, DEFFCT] s = (Inr True, s)"
    using assms(1,2) by (simp add: is_current_token_Some bind_def return_def)
  then have "source_file_loop statements s =
      bind mod_def (\<lambda>m. bind fnc_def (\<lambda>f.
        source_file_loop (statements @ List.map_filter (\<lambda>definition. definition) [m, f]))) s"
    by (subst source_file_loop.simps) (simp add: bind_def)
  with m show ?thesis by (simp add: bind_at)
qed

theorem mod_def_abandons_after_GLOBAL_witness:
  "mod_def (started
      [Token GLOBAL [] 1 1, Token DEFFCT [] 1 8, Token NAME ''INT'' 1 15,
       Token NAME ''f'' 1 19, Token LEFT_BRACE [] 1 20, Token RIGHT_BRACE [] 1 21,
       Token NEWLINE [] 1 22, Token ENDFCT [] 2 1, Token NEWLINE [] 2 7,
       Token END_OF_FILE [] 3 1])
   = (Inr None,
      (started
        [Token GLOBAL [] 1 1, Token DEFFCT [] 1 8, Token NAME ''INT'' 1 15,
         Token NAME ''f'' 1 19, Token LEFT_BRACE [] 1 20, Token RIGHT_BRACE [] 1 21,
         Token NEWLINE [] 1 22, Token ENDFCT [] 2 1, Token NEWLINE [] 2 7,
         Token END_OF_FILE [] 3 1])
      \<lparr>position := 1, current_token := Some (Token DEFFCT [] 1 8)\<rparr>) \<and>
   fst (source_file_loop [] (started
      [Token GLOBAL [] 1 1, Token DEFFCT [] 1 8, Token NAME ''INT'' 1 15,
       Token NAME ''f'' 1 19, Token LEFT_BRACE [] 1 20, Token RIGHT_BRACE [] 1 21,
       Token NEWLINE [] 1 22, Token ENDFCT [] 2 1, Token NEWLINE [] 2 7,
       Token END_OF_FILE [] 3 1]))
   = Inr [FunctionDefinition ''f'' [] [] (Some (Type ''INT'')) False]"
  using mod_def_abandons_after_GLOBAL [of "started
      [Token GLOBAL [] 1 1, Token DEFFCT [] 1 8, Token NAME ''INT'' 1 15,
       Token NAME ''f'' 1 19, Token LEFT_BRACE [] 1 20, Token RIGHT_BRACE [] 1 21,
       Token NEWLINE [] 1 22, Token ENDFCT [] 2 1, Token NEWLINE [] 2 7,
       Token END_OF_FILE [] 3 1]" "Token GLOBAL [] 1 1" "[]"]
  by (simp add: started_def Parser_def run)

section \<open>The dedicated diagnostics\<close>

lemma any_is_current_token_False:
  assumes "any_is_current_token ks s = (Inr False, s')"
  shows "s' = s \<and> (\<exists>t. current_token s = Some t \<and> token_type t \<notin> set ks) \<or> ks = []"
  using assms
proof (induction ks)
  case Nil
  then show ?case by simp
next
  case (Cons k ks)
  then show ?case
    by (cases "current_token s")
      (auto simp: is_current_token_def bind_def return_def split: if_splits)
qed

lemma source_file_loop_exit:
  assumes "source_file_loop statements s = (Inr r, s')"
  shows "\<exists>t. current_token s' = Some t"
  using assms
proof (induction statements s rule: source_file_loop.induct)
  case (1 statements s)
  from "1.prems" obtain more s1 where
    c: "any_is_current_token [GLOBAL, DEF, DEFFCT] s = (Inr more, s1)" and
    r: "(if more then
           bind mod_def (\<lambda>m. bind fnc_def (\<lambda>f.
             source_file_loop (statements @ List.map_filter (\<lambda>definition. definition) [m, f]))) s1
         else return statements s1) = (Inr r, s')"
    by (subst (asm) source_file_loop.simps) (auto simp: bind_Inr)
  show ?case
  proof (cases more)
    case True
    with r obtain m s2 f s3 where "mod_def s1 = (Inr m, s2)" "fnc_def s2 = (Inr f, s3)"
      "source_file_loop (statements @ List.map_filter (\<lambda>definition. definition) [m, f]) s3
         = (Inr r, s')"
      by (auto simp: bind_Inr)
    with "1.IH" [OF c True] show ?thesis by blast
  next
    case False
    with r have "s' = s1" by (simp add: return_def)
    with any_is_current_token_False [of "[GLOBAL, DEF, DEFFCT]" s s1] c False
    show ?thesis by auto
  qed
qed

lemma data_file_loop_exit:
  assumes "data_file_loop statements s = (Inr r, s')"
  shows "\<exists>t. current_token s' = Some t"
  using assms
proof (induction statements s rule: data_file_loop.induct)
  case (1 statements s)
  from "1.prems" obtain more s1 where
    c: "is_current_token DEFDAT s = (Inr more, s1)" and
    r: "(if more then bind dat_def (\<lambda>d. data_file_loop (statements @ [d])) s1
         else return statements s1) = (Inr r, s')"
    by (subst (asm) data_file_loop.simps) (auto simp: bind_Inr)
  show ?case
  proof (cases more)
    case True
    with r obtain d s2 where "dat_def s1 = (Inr d, s2)"
      "data_file_loop (statements @ [d]) s2 = (Inr r, s')"
      by (auto simp: bind_Inr)
    with "1.IH" [OF c True] show ?thesis by blast
  next
    case False
    with r have "s' = s1" by (simp add: return_def)
    with c show ?thesis
      by (cases "current_token s") (auto simp: is_current_token_def)
  qed
qed

text \<open>
  C1. Once the header is read: when the loop of \<open>_source_file\<close> ends with no statement,
  \<open>_source_file\<close> raises a \<open>ParsingError\<close> at the current token with the message
  \<open>No module or function definition found\<close>; when the loop of \<open>_data_file\<close> ends with
  no statement, \<open>_data_file\<close> raises one with \<open>No data definition found\<close>; when it
  ends with two or more, \<open>_data_file\<close> raises one with
  \<open>More than one data definition found\<close>. The error is the result of the call.
\<close>

theorem dedicated_diagnostics:
  assumes "header s = (Inr attributes, s1)"
  shows "(source_file_loop [] s1 = (Inr [], s2) \<longrightarrow>
            (\<exists>t. current_token s2 = Some t \<and>
               source_file name s =
                 (Inl (ParsingError (line_number t) (column t)
                        (Message ''No module or function definition found'')), s2))) \<and>
         (data_file_loop [] s1 = (Inr [], s2) \<longrightarrow>
            (\<exists>t. current_token s2 = Some t \<and>
               data_file name s =
                 (Inl (ParsingError (line_number t) (column t)
                        (Message ''No data definition found'')), s2))) \<and>
         (data_file_loop [] s1 = (Inr statements, s2) \<and> 1 < length statements \<longrightarrow>
            (\<exists>t. current_token s2 = Some t \<and>
               data_file name s =
                 (Inl (ParsingError (line_number t) (column t)
                        (Message ''More than one data definition found'')), s2)))"
proof (intro conjI impI)
  assume l: "source_file_loop [] s1 = (Inr [], s2)"
  from source_file_loop_exit [OF l] obtain t where t: "current_token s2 = Some t" ..
  with assms l show "\<exists>t. current_token s2 = Some t \<and>
      source_file name s =
        (Inl (ParsingError (line_number t) (column t)
               (Message ''No module or function definition found'')), s2)"
    by (simp add: source_file_def bind_def error_def)
next
  assume l: "data_file_loop [] s1 = (Inr [], s2)"
  from data_file_loop_exit [OF l] obtain t where t: "current_token s2 = Some t" ..
  with assms l show "\<exists>t. current_token s2 = Some t \<and>
      data_file name s =
        (Inl (ParsingError (line_number t) (column t)
               (Message ''No data definition found'')), s2)"
    by (simp add: data_file_def bind_def error_def)
next
  assume "data_file_loop [] s1 = (Inr statements, s2) \<and> 1 < length statements"
  then have l: "data_file_loop [] s1 = (Inr statements, s2)" and n: "1 < length statements"
    by simp_all
  from data_file_loop_exit [OF l] obtain t where t: "current_token s2 = Some t" ..
  from n have "statements \<noteq> []" by auto
  with assms l n t show "\<exists>t. current_token s2 = Some t \<and>
      data_file name s =
        (Inl (ParsingError (line_number t) (column t)
               (Message ''More than one data definition found'')), s2)"
    by (simp add: data_file_def bind_def error_def)
qed

text \<open>
  Two example inputs: a file with nothing but the end of file, and the tokens of
  a data file with two \<open>DEFDAT\<close> blocks.
\<close>

definition empty_file :: "token list" where
  "empty_file = [Token END_OF_FILE [] 1 1]"

definition two_data_definitions :: "token list" where
  "two_data_definitions =
     [Token DEFDAT [] 1 1, Token NAME ''a'' 1 8, Token NEWLINE [] 1 9,
      Token ENDDAT [] 2 1, Token NEWLINE [] 2 7,
      Token DEFDAT [] 3 1, Token NAME ''b'' 3 8, Token NEWLINE [] 3 9,
      Token ENDDAT [] 4 1, Token NEWLINE [] 4 7,
      Token END_OF_FILE [] 5 1]"

theorem dedicated_diagnostics_witness:
  "fst (source_file ''m'' (started empty_file)) =
     Inl (ParsingError 1 1 (Message ''No module or function definition found'')) \<and>
   fst (data_file ''m'' (started empty_file)) =
     Inl (ParsingError 1 1 (Message ''No data definition found'')) \<and>
   fst (data_file ''m'' (started two_data_definitions)) =
     Inl (ParsingError 5 1 (Message ''More than one data definition found''))"
  using
    dedicated_diagnostics [of "started empty_file" "[]" "started empty_file"
      "started empty_file" "''m''" "[]"]
    dedicated_diagnostics [of "started two_data_definitions" "[]" "started two_data_definitions"
      "(started two_data_definitions)\<lparr>position := 10,
         current_token := Some (Token END_OF_FILE [] 5 1)\<rparr>"
      "''m''" "[DataDefinition ''a'' False, DataDefinition ''b'' False]"]
  by (simp add: started_def Parser_def empty_file_def two_data_definitions_def run)

section \<open>The entry points and the list of trees\<close>

lemma initialize_ast: "initialize toks s = (r, s') \<Longrightarrow> ast s' = ast s"
  by (auto simp: initialize_def Let_def split: list.splits)

lemma source_file_ast: "source_file name s = (r, s') \<Longrightarrow> ast s' = ast s"
  by (rule steadyD(1) [OF steady_source_file])

lemma data_file_ast: "data_file name s = (r, s') \<Longrightarrow> ast s' = ast s"
  by (rule steadyD(1) [OF steady_data_file])

lemma add_source_file_atomic:
  "case add_source_file lexer name source_text p of
     (Inl e, p') \<Rightarrow> ast p' = ast p
   | (Inr u, p') \<Rightarrow>
       (\<exists>source_tokens sf.
          lexer source_text = Inr source_tokens \<and>
          fst (source_file name (snd (initialize source_tokens p))) = Inr sf \<and>
          ast p' = ast p @ [SourceFileNode sf])"
proof (cases "lexer source_text")
  case (Inl e)
  then show ?thesis by (simp add: add_source_file_def generate_tokens_def bind_def)
next
  case (Inr toks)
  obtain r1 s1 where i: "initialize toks p = (r1, s1)" by (cases "initialize toks p")
  obtain r2 s2 where f: "source_file name s1 = (r2, s2)" by (cases "source_file name s1")
  from initialize_ast [OF i] source_file_ast [OF f] have "ast s1 = ast p" "ast s2 = ast p"
    by simp_all
  with Inr i f show ?thesis
    by (cases r1; cases r2)
      (simp_all add: add_source_file_def generate_tokens_def bind_def ast_append_def)
qed

lemma add_data_file_atomic:
  "case add_data_file lexer name data_text p of
     (Inl e, p') \<Rightarrow> ast p' = ast p
   | (Inr u, p') \<Rightarrow>
       (\<exists>data_tokens df.
          lexer data_text = Inr data_tokens \<and>
          fst (data_file name (snd (initialize data_tokens p))) = Inr df \<and>
          ast p' = ast p @ [DataFileNode df])"
proof (cases "lexer data_text")
  case (Inl e)
  then show ?thesis by (simp add: add_data_file_def generate_tokens_def bind_def)
next
  case (Inr toks)
  obtain r1 s1 where i: "initialize toks p = (r1, s1)" by (cases "initialize toks p")
  obtain r2 s2 where f: "data_file name s1 = (r2, s2)" by (cases "data_file name s1")
  from initialize_ast [OF i] data_file_ast [OF f] have "ast s1 = ast p" "ast s2 = ast p"
    by simp_all
  with Inr i f show ?thesis
    by (cases r1; cases r2)
      (simp_all add: add_data_file_def generate_tokens_def bind_def ast_append_def)
qed

lemma add_module_atomic:
  "case add_module lexer name source_text data_text p of
     (Inl e, p') \<Rightarrow> ast p' = ast p
   | (Inr u, p') \<Rightarrow>
       (\<exists>source_tokens data_tokens sf df s2.
          lexer source_text = Inr source_tokens \<and> lexer data_text = Inr data_tokens \<and>
          source_file name (snd (initialize source_tokens p)) = (Inr sf, s2) \<and>
          fst (data_file name (snd (initialize data_tokens s2))) = Inr df \<and>
          ast p' = ast p @ [ModuleNode (Module name sf df)])"
proof (cases "lexer source_text")
  case (Inl e)
  then show ?thesis by (simp add: add_module_def generate_tokens_def bind_def)
next
  case src: (Inr stoks)
  show ?thesis
  proof (cases "lexer data_text")
    case (Inl e)
    with src show ?thesis by (simp add: add_module_def generate_tokens_def bind_def)
  next
    case dat: (Inr dtoks)
    obtain r1 s1 where i1: "initialize stoks p = (r1, s1)" by (cases "initialize stoks p")
    obtain r2 s2 where f1: "source_file name s1 = (r2, s2)" by (cases "source_file name s1")
    obtain r3 s3 where i2: "initialize dtoks s2 = (r3, s3)" by (cases "initialize dtoks s2")
    obtain r4 s4 where f2: "data_file name s3 = (r4, s4)" by (cases "data_file name s3")
    from initialize_ast [OF i1] source_file_ast [OF f1] initialize_ast [OF i2]
      data_file_ast [OF f2]
    have "ast s1 = ast p" "ast s2 = ast p" "ast s3 = ast p" "ast s4 = ast p"
      by simp_all
    with src dat i1 f1 i2 f2 show ?thesis
      by (cases r1; cases r2; cases r3; cases r4)
        (simp_all add: add_module_def generate_tokens_def bind_def ast_append_def)
  qed
qed

text \<open>
  C8. Each entry point either raises and leaves the list of trees as it was, whatever
  was appended before, or returns after appending exactly one node: the \<open>Module\<close>,
  \<open>SourceFile\<close> or \<open>DataFile\<close> that the file productions returned for the tokens of
  the lexer.
\<close>

theorem add_atomic:
  "(case add_module lexer name source_text data_text p of
      (Inl e, p') \<Rightarrow> ast p' = ast p
    | (Inr u, p') \<Rightarrow>
        (\<exists>source_tokens data_tokens sf df s2.
           lexer source_text = Inr source_tokens \<and> lexer data_text = Inr data_tokens \<and>
           source_file name (snd (initialize source_tokens p)) = (Inr sf, s2) \<and>
           fst (data_file name (snd (initialize data_tokens s2))) = Inr df \<and>
           ast p' = ast p @ [ModuleNode (Module name sf df)])) \<and>
   (case add_source_file lexer name source_text p of
      (Inl e, p') \<Rightarrow> ast p' = ast p
    | (Inr u, p') \<Rightarrow>
        (\<exists>source_tokens sf.
           lexer source_text = Inr source_tokens \<and>
           fst (source_file name (snd (initialize source_tokens p))) = Inr sf \<and>
           ast p' = ast p @ [SourceFileNode sf])) \<and>
   (case add_data_file lexer name data_text p of
      (Inl e, p') \<Rightarrow> ast p' = ast p
    | (Inr u, p') \<Rightarrow>
        (\<exists>data_tokens df.
           lexer data_text = Inr data_tokens \<and>
           fst (data_file name (snd (initialize data_tokens p))) = Inr df \<and>
           ast p' = ast p @ [DataFileNode df]))"
  by (intro conjI add_module_atomic add_source_file_atomic add_data_file_atomic)

section \<open>Every read of the current token finds a token\<close>

text \<open>
  A token list handed to the parser is \<open>well_terminated\<close> when it is not empty and its
  last element is its only end-of-file token. The parser is \<open>on_token\<close> when the cursor
  is inside such a list and the current token is the token under it.
\<close>

definition well_terminated :: "token list \<Rightarrow> bool" where
  "well_terminated toks \<longleftrightarrow>
     toks \<noteq> [] \<and> token_type (last toks) = END_OF_FILE \<and>
     END_OF_FILE \<notin> set (map token_type (butlast toks))"

definition on_token :: "parser \<Rightarrow> bool" where
  "on_token s \<longleftrightarrow>
     well_terminated (tokens s) \<and> position s < length (tokens s) \<and>
     current_token s = Some (tokens s ! position s)"

fun is_ParsingError :: "error \<Rightarrow> bool" where
  "is_ParsingError (ParsingError l c msg) = True"
| "is_ParsingError _ = False"

text \<open>
  \<open>safe_at m s\<close>: from a parser on a token, \<open>m\<close> returns or raises a \<open>ParsingError\<close>, and
  the parser is on a token afterwards.
\<close>

definition safe_at :: "'a action \<Rightarrow> parser \<Rightarrow> bool" where
  "safe_at m s \<longleftrightarrow>
     (on_token s \<longrightarrow>
        (case m s of
           (Inl e, s') \<Rightarrow> is_ParsingError e \<and> on_token s'
         | (Inr x, s') \<Rightarrow> on_token s'))"

definition safe :: "'a action \<Rightarrow> bool" where
  "safe m \<longleftrightarrow> (\<forall>s. safe_at m s)"

lemma safe_at [simp]: "safe m \<Longrightarrow> safe_at m s"
  by (simp add: safe_def)

lemma well_terminated_inner:
  assumes "well_terminated toks" and "i < length toks" and "token_type (toks ! i) \<noteq> END_OF_FILE"
  shows "Suc i < length toks"
proof (rule ccontr)
  assume "\<not> Suc i < length toks"
  with assms(2) have "i = length toks - 1" by simp
  with assms(1) have "toks ! i = last toks" by (simp add: well_terminated_def last_conv_nth)
  with assms(1,3) show False by (simp add: well_terminated_def)
qed

lemma well_terminated_last:
  assumes "well_terminated toks" and "i < length toks" and "token_type (toks ! i) = END_OF_FILE"
  shows "Suc i = length toks"
proof (rule ccontr)
  assume "Suc i \<noteq> length toks"
  with assms(2) have "i < length (butlast toks)" by simp
  then have "butlast toks ! i \<in> set (butlast toks)" by (rule nth_mem)
  moreover from \<open>i < length (butlast toks)\<close> have "butlast toks ! i = toks ! i"
    by (simp add: nth_butlast)
  ultimately have "token_type (toks ! i) \<in> set (map token_type (butlast toks))" by auto
  with assms(1,3) show False by (simp add: well_terminated_def)
qed

lemma safe_at_bind:
  assumes "safe_at m s" and "\<And>x s'. m s = (Inr x, s') \<Longrightarrow> safe_at (f x) s'"
  shows "safe_at (bind m f) s"
  unfolding safe_at_def
proof
  assume o: "on_token s"
  obtain r s1 where m: "m s = (r, s1)" by (cases "m s")
  show "case bind m f s of
          (Inl e, s') \<Rightarrow> is_ParsingError e \<and> on_token s'
        | (Inr x, s') \<Rightarrow> on_token s'"
  proof (cases r)
    case (Inl e)
    with m o assms(1) show ?thesis by (simp add: safe_at_def bind_def)
  next
    case (Inr x)
    with m o assms(1) have o1: "on_token s1" by (simp add: safe_at_def)
    from Inr m have "safe_at (f x) s1" by (simp add: assms(2))
    with o1 Inr m show ?thesis by (simp add: safe_at_def bind_def)
  qed
qed

lemma safe_at_if:
  assumes "c \<Longrightarrow> safe_at a s" and "\<not> c \<Longrightarrow> safe_at b s"
  shows "safe_at (\<lambda>s'. if c then a s' else b s') s"
  using assms by (simp add: safe_at_def)

lemma safe_bind [intro!]:
  assumes "safe m" and "\<And>x. safe (f x)"
  shows "safe (bind m f)"
  using assms by (auto simp: safe_def intro: safe_at_bind)

lemma safe_if [intro!]: "safe a \<Longrightarrow> safe b \<Longrightarrow> safe (if c then a else b)"
  by simp

lemma safe_case_option [intro!]:
  "safe a \<Longrightarrow> (\<And>y. safe (b y)) \<Longrightarrow> safe (case x of None \<Rightarrow> a | Some y \<Rightarrow> b y)"
  by (cases x) simp_all

lemma safe_return [intro!, simp]: "safe (return x)"
  by (simp add: safe_def safe_at_def return_def)

lemma safe_error [intro!, simp]: "safe (error msg)"
  by (simp add: safe_def safe_at_def error_def on_token_def)

lemma safe_is_current_token [intro!, simp]: "safe (is_current_token k)"
  by (simp add: safe_def safe_at_def is_current_token_def on_token_def)

lemma on_token_consumed:
  assumes "on_token s" and "token_type (tokens s ! position s) \<noteq> END_OF_FILE"
  shows "on_token (consumed s)"
proof -
  from assms have "Suc (position s) < length (tokens s)"
    by (auto simp: on_token_def intro: well_terminated_inner)
  with assms(1) show ?thesis
    by (simp add: on_token_def consumed_def advance_def Let_def)
qed

lemma safe_eat [intro!, simp]:
  assumes "k \<noteq> END_OF_FILE"
  shows "safe (eat k)"
  unfolding safe_def safe_at_def
proof (intro allI impI)
  fix s
  assume o: "on_token s"
  then have t: "current_token s = Some (tokens s ! position s)" by (simp add: on_token_def)
  show "case eat k s of
          (Inl e, s') \<Rightarrow> is_ParsingError e \<and> on_token s'
        | (Inr x, s') \<Rightarrow> on_token s'"
    using o assms on_token_consumed [OF o] by (simp add: eat_Some [OF t])
qed

lemma safe_try_eat [intro!, simp]:
  assumes "k \<noteq> END_OF_FILE"
  shows "safe (try_eat k)"
  unfolding safe_def safe_at_def
proof (intro allI impI)
  fix s
  assume o: "on_token s"
  then have t: "current_token s = Some (tokens s ! position s)" by (simp add: on_token_def)
  show "case try_eat k s of
          (Inl e, s') \<Rightarrow> is_ParsingError e \<and> on_token s'
        | (Inr x, s') \<Rightarrow> on_token s'"
    using o assms on_token_consumed [OF o] by (simp add: try_eat_Some [OF t])
qed

lemma safe_skip_newlines [intro!, simp]: "safe skip_newlines"
proof -
  have "safe_at skip_newlines s" for s
  proof (induction s rule: skip_newlines.induct)
    case (1 s)
    show ?case
      by (subst skip_newlines.simps, rule safe_at_bind)
        (auto intro!: safe_at_if intro: "1.IH")
  qed
  then show ?thesis by (simp add: safe_def)
qed

lemma safe_header_loop [intro!, simp]: "safe (header_loop attributes)"
proof -
  have "safe_at (header_loop attributes) s" for s
  proof (induction attributes s rule: header_loop.induct)
    case (1 attributes s)
    show ?case
      by (subst header_loop.simps, rule safe_at_bind)
        (auto intro!: safe_at_if safe_at_bind intro: "1.IH")
  qed
  then show ?thesis by (simp add: safe_def)
qed

lemma safe_header [intro!, simp]: "safe header"
  by (simp add: header_def)

lemma safe_param_def [intro!, simp]: "safe param_def"
  unfolding param_def_def by (intro safe_bind safe_if safe_case_option) simp_all

lemma safe_params_def_loop [intro!, simp]: "safe (params_def_loop parameters)"
proof -
  have "safe_at (params_def_loop parameters) s" for s
  proof (induction parameters s rule: params_def_loop.induct)
    case (1 parameters s)
    show ?case
      by (subst params_def_loop.simps, rule safe_at_bind)
        (auto intro!: safe_at_if safe_at_bind intro: "1.IH")
  qed
  then show ?thesis by (simp add: safe_def)
qed

lemma safe_params_def [intro!, simp]: "safe params_def"
  unfolding params_def_def by (intro safe_bind safe_if) simp_all

lemma safe_param [intro!, simp]: "safe param"
  unfolding param_def by (intro safe_bind) simp_all

lemma safe_params_loop [intro!, simp]: "safe (params_loop parameters)"
proof -
  have "safe_at (params_loop parameters) s" for s
  proof (induction parameters s rule: params_loop.induct)
    case (1 parameters s)
    show ?case
      by (subst params_loop.simps, rule safe_at_bind)
        (auto intro!: safe_at_if safe_at_bind intro: "1.IH")
  qed
  then show ?thesis by (simp add: safe_def)
qed

lemma safe_params [intro!, simp]: "safe params"
  unfolding params_def by (intro safe_bind safe_if) simp_all

lemma safe_mod_call [intro!, simp]: "safe mod_call"
  unfolding mod_call_def by (intro safe_bind) simp_all

lemma safe_body_loop [intro!, simp]: "safe (body_loop calls)"
proof -
  have "safe_at (body_loop calls) s" for s
  proof (induction calls s rule: body_loop.induct)
    case (1 calls s)
    show ?case
      by (subst body_loop.simps, rule safe_at_bind)
        (auto intro!: safe_at_if safe_at_bind intro: "1.IH")
  qed
  then show ?thesis by (simp add: safe_def)
qed

lemma safe_body [intro!, simp]: "safe body"
  by (simp add: body_def)

lemma safe_mod_def [intro!, simp]: "safe mod_def"
  unfolding mod_def_def by (intro safe_bind safe_if) simp_all

lemma safe_fnc_def [intro!, simp]: "safe fnc_def"
  unfolding fnc_def_def by (intro safe_bind safe_if) simp_all

lemma safe_dat_def [intro!, simp]: "safe dat_def"
  unfolding dat_def_def by (intro safe_bind safe_if) simp_all

lemma safe_any_is_current_token [intro!, simp]: "safe (any_is_current_token ks)"
  by (induction ks) auto

lemma safe_source_file_loop [intro!, simp]: "safe (source_file_loop statements)"
proof -
  have "safe_at (source_file_loop statements) s" for s
  proof (induction statements s rule: source_file_loop.induct)
    case (1 statements s)
    show ?case
      by (subst source_file_loop.simps, rule safe_at_bind)
        (auto intro!: safe_at_if safe_at_bind intro: "1.IH")
  qed
  then show ?thesis by (simp add: safe_def)
qed

lemma safe_data_file_loop [intro!, simp]: "safe (data_file_loop statements)"
proof -
  have "safe_at (data_file_loop statements) s" for s
  proof (induction statements s rule: data_file_loop.induct)
    case (1 statements s)
    show ?case
      by (subst data_file_loop.simps, rule safe_at_bind)
        (auto intro!: safe_at_if safe_at_bind intro: "1.IH")
  qed
  then show ?thesis by (simp add: safe_def)
qed

text \<open>
  \<open>finishing_at m s\<close>: from a parser on a token, \<open>m\<close> raises a \<open>ParsingError\<close> with the
  parser still on a token, or returns with the cursor past the end of the list and no
  current token.
\<close>

definition finishing_at :: "'a action \<Rightarrow> parser \<Rightarrow> bool" where
  "finishing_at m s \<longleftrightarrow>
     (on_token s \<longrightarrow>
        (case m s of
           (Inl e, s') \<Rightarrow> is_ParsingError e \<and> on_token s'
         | (Inr x, s') \<Rightarrow> current_token s' = None \<and> position s' = length (tokens s')))"

lemma finishing_at_bind:
  assumes "safe_at m s" and "\<And>x s'. m s = (Inr x, s') \<Longrightarrow> finishing_at (f x) s'"
  shows "finishing_at (bind m f) s"
  unfolding finishing_at_def
proof
  assume o: "on_token s"
  obtain r s1 where m: "m s = (r, s1)" by (cases "m s")
  show "case bind m f s of
          (Inl e, s') \<Rightarrow> is_ParsingError e \<and> on_token s'
        | (Inr x, s') \<Rightarrow> current_token s' = None \<and> position s' = length (tokens s')"
  proof (cases r)
    case (Inl e)
    with m o assms(1) show ?thesis by (simp add: safe_at_def bind_def)
  next
    case (Inr x)
    with m o assms(1) have o1: "on_token s1" by (simp add: safe_at_def)
    from Inr m have "finishing_at (f x) s1" by (simp add: assms(2))
    with o1 Inr m show ?thesis by (simp add: finishing_at_def bind_def)
  qed
qed

lemma finishing_at_error: "finishing_at (error msg) s"
  by (simp add: finishing_at_def error_def on_token_def)

lemma finishing_at_eat_END_OF_FILE: "finishing_at (bind (eat END_OF_FILE) (\<lambda>_. return x)) s"
  unfolding finishing_at_def
proof
  assume o: "on_token s"
  then have t: "current_token s = Some (tokens s ! position s)" by (simp add: on_token_def)
  show "case bind (eat END_OF_FILE) (\<lambda>_. return x) s of
          (Inl e, s') \<Rightarrow> is_ParsingError e \<and> on_token s'
        | (Inr x, s') \<Rightarrow> current_token s' = None \<and> position s' = length (tokens s')"
  proof (cases "token_type (tokens s ! position s) = END_OF_FILE")
    case True
    with o have "Suc (position s) = length (tokens s)"
      by (auto simp: on_token_def intro: well_terminated_last)
    then have "current_token (consumed s) = None"
      "position (consumed s) = length (tokens (consumed s))"
      by (simp_all add: consumed_def advance_def Let_def)
    with True show ?thesis by (simp add: bind_def return_def eat_Some [OF t])
  next
    case False
    with o show ?thesis by (simp add: bind_def eat_Some [OF t])
  qed
qed

lemma finishing_at_source_file: "finishing_at (source_file name) s"
  unfolding source_file_def
  by (rule finishing_at_bind, simp, rule finishing_at_bind, simp)
    (simp add: finishing_at_error finishing_at_eat_END_OF_FILE)

lemma finishing_at_data_file: "finishing_at (data_file name) s"
  unfolding data_file_def
  by (rule finishing_at_bind, simp, rule finishing_at_bind, simp)
    (simp add: finishing_at_error finishing_at_eat_END_OF_FILE)

lemma initialize_on_token:
  assumes "well_terminated toks"
  shows "\<exists>s. initialize toks p = (Inr (), s) \<and> on_token s \<and> tokens s = toks"
proof -
  from assms obtain t ts where "toks = t # ts"
    by (cases toks) (auto simp: well_terminated_def)
  with assms show ?thesis
    by (simp add: initialize_def Let_def on_token_def)
qed

text \<open>
  C10. In the model a read of a missing current token raises \<open>AttributeError\<close> and the
  read of \<open>tokens[0]\<close> of an empty list raises \<open>IndexError\<close>; neither is caught, so
  either would be the result of the parse. On a token list that is not empty and whose
  last element is its only end-of-file token, \<open>_source_file\<close> and \<open>_data_file\<close> raise
  nothing but a \<open>ParsingError\<close>, with a current token still there, or return with the
  cursor past the last token, the end of file consumed and the current token \<open>None\<close>.
\<close>

theorem current_token_present:
  assumes "well_terminated toks"
  shows "(case bind (initialize toks) (\<lambda>_. source_file name) p of
            (Inl e, s') \<Rightarrow> (\<exists>l c msg. e = ParsingError l c msg) \<and> current_token s' \<noteq> None
          | (Inr f, s') \<Rightarrow> current_token s' = None \<and> position s' = length toks) \<and>
         (case bind (initialize toks) (\<lambda>_. data_file name) p of
            (Inl e, s') \<Rightarrow> (\<exists>l c msg. e = ParsingError l c msg) \<and> current_token s' \<noteq> None
          | (Inr f, s') \<Rightarrow> current_token s' = None \<and> position s' = length toks)"
proof -
  from initialize_on_token [OF assms] obtain s where
    i: "initialize toks p = (Inr (), s)" and o: "on_token s" and toks: "tokens s = toks"
    by blast
  have pe: "is_ParsingError e \<Longrightarrow> \<exists>l c msg. e = ParsingError l c msg" for e
    by (cases e) simp_all
  have "case m s of
            (Inl e, s') \<Rightarrow> (\<exists>l c msg. e = ParsingError l c msg) \<and> current_token s' \<noteq> None
          | (Inr f, s') \<Rightarrow> current_token s' = None \<and> position s' = length toks"
    if f: "finishing_at m s" and st: "steady m" for m :: "'a action"
  proof -
    obtain r s' where m: "m s = (r, s')" by (cases "m s")
    from steadyD(3) [OF st m] toks have "tokens s' = toks" by simp
    with f o m show ?thesis
      by (cases r) (auto simp: finishing_at_def on_token_def dest: pe)
  qed
  from this [OF finishing_at_source_file steady_source_file]
    this [OF finishing_at_data_file steady_data_file] i
  show ?thesis by (simp add: bind_def)
qed

theorem current_token_present_witness:
  "well_terminated two_data_definitions \<and>
   bind (initialize two_data_definitions) (\<lambda>_. source_file ''m'') Parser =
     (Inl (ParsingError 1 1 (Message ''No module or function definition found'')),
      started two_data_definitions) \<and>
   current_token (started two_data_definitions) \<noteq> None \<and>
   well_terminated
     [Token DEF [] 1 1, Token NAME ''foo'' 1 5, Token LEFT_BRACE [] 1 8,
      Token RIGHT_BRACE [] 1 9, Token NEWLINE [] 1 10, Token END [] 2 2,
      Token NEWLINE [] 2 5, Token END_OF_FILE [] 3 1] \<and>
   current_token (snd (bind (initialize
     [Token DEF [] 1 1, Token NAME ''foo'' 1 5, Token LEFT_BRACE [] 1 8,
      Token RIGHT_BRACE [] 1 9, Token NEWLINE [] 1 10, Token END [] 2 2,
      Token NEWLINE [] 2 5, Token END_OF_FILE [] 3 1]) (\<lambda>_. source_file ''m'') Parser)) = None"
  using current_token_present [of two_data_definitions "''m''" Parser]
    current_token_present [of
     "[Token DEF [] 1 1, Token NAME ''foo'' 1 5, Token LEFT_BRACE [] 1 8,
      Token RIGHT_BRACE [] 1 9, Token NEWLINE [] 1 10, Token END [] 2 2,
      Token NEWLINE [] 2 5, Token END_OF_FILE [] 3 1]" "''m''" Parser]
  by (simp add: well_terminated_def started_def Parser_def two_data_definitions_def run)

section \<open>Statements in source order\<close>

text \<open>
  The loop of \<open>_source_file\<close> once more, recording with each definition it appends the
  span of the token list it was read from: the cursor position at which the production
  that returned it was entered and the position at which it returned.
\<close>

type_synonym span = "nat \<times> nat"

function source_file_loop_spans ::
  "(span \<times> FunctionDefinition) list \<Rightarrow> (span \<times> FunctionDefinition) list action" where
  "source_file_loop_spans statements s =
     bind (any_is_current_token [GLOBAL, DEF, DEFFCT]) (\<lambda>more s1.
       if more then
         bind mod_def (\<lambda>m s2.
         bind fnc_def (\<lambda>f s3.
         source_file_loop_spans
           (statements @ List.map_filter (\<lambda>definition. definition)
              [map_option (Pair (position s1, position s2)) m,
               map_option (Pair (position s2, position s3)) f]) s3) s2) s1
       else return statements s1) s"
  by pat_completeness auto
termination
proof (relation "measure (\<lambda>(statements, s). remaining s)", goal_cases)
  case 1
  show ?case by simp
next
  case (2 statements s more s1 m s2 f s3)
  then show ?case by (simp add: source_file_round)
qed

declare source_file_loop_spans.simps [simp del]

text \<open>
  \<open>ordered_spans lo spans\<close>: the spans start at \<open>lo\<close> or later, none is empty, and each
  ends before the next starts.
\<close>

fun ordered_spans :: "nat \<Rightarrow> span list \<Rightarrow> bool" where
  "ordered_spans lo [] = True"
| "ordered_spans lo ((a, b) # spans) = (lo \<le> a \<and> a < b \<and> ordered_spans b spans)"

fun span_end :: "nat \<Rightarrow> span list \<Rightarrow> nat" where
  "span_end lo [] = lo"
| "span_end lo ((a, b) # spans) = span_end b spans"

lemma ordered_spans_snoc:
  "ordered_spans lo (spans @ [(a, b)]) =
     (ordered_spans lo spans \<and> span_end lo spans \<le> a \<and> a < b)"
  by (induction lo spans rule: ordered_spans.induct) auto

lemma span_end_snoc [simp]: "span_end lo (spans @ [(a, b)]) = b"
  by (induction lo spans rule: span_end.induct) auto

lemma ordered_spans_snoc2:
  "ordered_spans lo (spans @ [(a, b), (c, d)]) =
     (ordered_spans lo spans \<and> span_end lo spans \<le> a \<and> a < b \<and> b \<le> c \<and> c < d)"
  using ordered_spans_snoc [of lo "spans @ [(a, b)]" c d] by (simp add: ordered_spans_snoc)

lemma span_end_snoc2 [simp]: "span_end lo (spans @ [(a, b), (c, d)]) = d"
  using span_end_snoc [of lo "spans @ [(a, b)]" c d] by simp

text \<open>Forgetting the spans gives the loop of \<open>_source_file\<close>.\<close>

lemma source_file_loop_spans_erase:
  "source_file_loop (map snd statements) s =
     (case source_file_loop_spans statements s of
        (r, s') \<Rightarrow> (map_sum (\<lambda>e. e) (map snd) r, s'))"
proof (induction statements s rule: source_file_loop_spans.induct)
  case (1 statements s)
  obtain r0 s1 where c: "any_is_current_token [GLOBAL, DEF, DEFFCT] s = (r0, s1)"
    by (cases "any_is_current_token [GLOBAL, DEF, DEFFCT] s")
  show ?case
  proof (cases r0)
    case (Inl e)
    with c show ?thesis
      by (subst source_file_loop.simps, subst source_file_loop_spans.simps)
        (simp add: bind_def)
  next
    case (Inr more)
    show ?thesis
    proof (cases more)
      case False
      with c Inr show ?thesis
        by (subst source_file_loop.simps, subst source_file_loop_spans.simps)
          (simp add: bind_def return_def)
    next
      case True
      obtain r1 s2 where m: "mod_def s1 = (r1, s2)" by (cases "mod_def s1")
      show ?thesis
      proof (cases r1)
        case (Inl e)
        with c Inr True m show ?thesis
          by (subst source_file_loop.simps, subst source_file_loop_spans.simps)
            (simp add: bind_def)
      next
        case md: (Inr d)
        obtain r2 s3 where f: "fnc_def s2 = (r2, s3)" by (cases "fnc_def s2")
        show ?thesis
        proof (cases r2)
          case (Inl e)
          with c Inr True m md f show ?thesis
            by (subst source_file_loop.simps, subst source_file_loop_spans.simps)
              (simp add: bind_def)
        next
          case fd: (Inr d')
          have e: "map snd (statements @ List.map_filter (\<lambda>definition. definition)
                     [map_option (Pair (position s1, position s2)) d,
                      map_option (Pair (position s2, position s3)) d'])
                   = map snd statements @ List.map_filter (\<lambda>definition. definition) [d, d']"
            by (cases d; cases d') (simp_all add: List.map_filter_def)
          from "1.IH" [of more s1 d s2 d' s3] c Inr True m md f fd e
          show ?thesis
            by (subst source_file_loop.simps, subst source_file_loop_spans.simps)
              (simp add: bind_def)
        qed
      qed
    qed
  qed
qed

text \<open>A production that returns a definition has consumed a token.\<close>

definition productive :: "'a option action \<Rightarrow> bool" where
  "productive m \<longleftrightarrow> (\<forall>s d s'. m s = (Inr (Some d), s') \<longrightarrow> position s < position s')"

lemma productive_bind:
  assumes "steady m" and "\<And>x. productive (f x)"
  shows "productive (bind m f)"
  unfolding productive_def
proof (intro allI impI)
  fix s d s''
  assume "bind m f s = (Inr (Some d), s'')"
  then obtain x s' where m: "m s = (Inr x, s')" and f: "f x s' = (Inr (Some d), s'')"
    by (auto simp: bind_Inr)
  from assms(2) f have "position s' < position s''" by (auto simp: productive_def)
  with steadyD(4) [OF assms(1) m] show "position s < position s''" by simp
qed

lemma productive_if: "productive a \<Longrightarrow> productive b \<Longrightarrow> productive (if c then a else b)"
  by simp

lemma productive_return_None [simp]: "productive (return None)"
  by (simp add: productive_def return_def)

lemma productive_consuming: "consuming m \<Longrightarrow> productive m"
  by (auto simp: productive_def consuming_def)

lemma productive_mod_def: "productive mod_def"
  unfolding mod_def_def
  by (rule productive_bind, simp, rule productive_bind, simp, rule productive_bind, simp,
      rule productive_if, simp, rule productive_consuming, rule consuming_bind1) auto

lemma productive_fnc_def: "productive fnc_def"
  unfolding fnc_def_def
  by (rule productive_bind, simp, rule productive_bind, simp, rule productive_bind, simp,
      rule productive_if, simp, rule productive_consuming, rule consuming_bind1) auto

lemma source_file_loop_spans_ordered:
  assumes "source_file_loop_spans statements s = (Inr r, s')"
    and "ordered_spans lo (map fst statements)"
    and "span_end lo (map fst statements) \<le> position s"
  shows "ordered_spans lo (map fst r)"
  using assms
proof (induction statements s rule: source_file_loop_spans.induct)
  case (1 statements s)
  from "1.prems"(1) obtain more s1 where
    c: "any_is_current_token [GLOBAL, DEF, DEFFCT] s = (Inr more, s1)" and
    r: "(if more then
           bind mod_def (\<lambda>m s2.
           bind fnc_def (\<lambda>f s3.
           source_file_loop_spans
             (statements @ List.map_filter (\<lambda>definition. definition)
                [map_option (Pair (position s1, position s2)) m,
                 map_option (Pair (position s2, position s3)) f]) s3) s2) s1
         else return statements s1) = (Inr r, s')"
    by (subst (asm) source_file_loop_spans.simps) (auto simp: bind_Inr)
  show ?case
  proof (cases more)
    case False
    with r "1.prems"(2) show ?thesis by (simp add: return_def)
  next
    case True
    with r obtain m s2 f s3 where m: "mod_def s1 = (Inr m, s2)" and f: "fnc_def s2 = (Inr f, s3)"
      and l: "source_file_loop_spans
             (statements @ List.map_filter (\<lambda>definition. definition)
                [map_option (Pair (position s1, position s2)) m,
                 map_option (Pair (position s2, position s3)) f]) s3 = (Inr r, s')"
      by (auto simp: bind_Inr)
    from steadyD(4) [OF steady_any_is_current_token c] "1.prems"(3)
    have p1: "span_end lo (map fst statements) \<le> position s1" by simp
    from steadyD(4) [OF steady_mod_def m] have p12: "position s1 \<le> position s2" .
    from steadyD(4) [OF steady_fnc_def f] have p23: "position s2 \<le> position s3" .
    have pm: "position s1 < position s2" if "m = Some d" for d
      using productive_mod_def m that by (auto simp: productive_def)
    have pf: "position s2 < position s3" if "f = Some d" for d
      using productive_fnc_def f that by (auto simp: productive_def)
    let ?new = "statements @ List.map_filter (\<lambda>definition. definition)
                [map_option (Pair (position s1, position s2)) m,
                 map_option (Pair (position s2, position s3)) f]"
    have "ordered_spans lo (map fst ?new) \<and> span_end lo (map fst ?new) \<le> position s3"
      using "1.prems"(2) p1 p12 p23 pm pf
      by (cases m; cases f)
        (simp_all add: List.map_filter_def ordered_spans_snoc ordered_spans_snoc2)
    with "1.IH" [OF c True m f l] show ?thesis by simp
  qed
qed

text \<open>
  C7. When \<open>_source_file\<close> returns a \<open>SourceFile\<close>, its statements are the definitions
  the rounds of the loop returned, and the spans of tokens they were read from follow
  each other in the list as in the token list: none is empty and each ends before the
  next starts, although every round tries \<open>_mod_def\<close> before \<open>_fnc_def\<close>.
\<close>

theorem statements_in_source_order:
  assumes "source_file name s = (Inr f, s')"
  shows "\<exists>attributes s1 r s2.
           header s = (Inr attributes, s1) \<and>
           source_file_loop_spans [] s1 = (Inr r, s2) \<and>
           f = SourceFile name attributes (map snd r) \<and>
           ordered_spans (position s1) (map fst r)"
proof -
  from assms obtain attributes s1 statements s2 where
    h: "header s = (Inr attributes, s1)" and
    l: "source_file_loop [] s1 = (Inr statements, s2)" and
    e: "(if statements = [] then error (Message ''No module or function definition found'')
         else bind (eat END_OF_FILE) (\<lambda>_. return (SourceFile name attributes statements))) s2
        = (Inr f, s')"
    unfolding source_file_def by (auto simp: bind_Inr)
  have "error msg s2 \<noteq> (Inr f, s')" for msg :: message
    by (simp add: error_def split: option.splits)
  with e have f: "f = SourceFile name attributes statements"
    by (auto simp: bind_Inr return_def split: if_splits)
  obtain r0 s2' where sp: "source_file_loop_spans [] s1 = (r0, s2')"
    by (cases "source_file_loop_spans [] s1")
  with l source_file_loop_spans_erase [of "[]" s1]
  obtain r where r: "r0 = Inr r" "map snd r = statements" "s2' = s2"
    by (cases r0) auto
  from sp r have sp': "source_file_loop_spans [] s1 = (Inr r, s2)" by simp
  from source_file_loop_spans_ordered [OF sp', of "position s1"]
  have "ordered_spans (position s1) (map fst r)" by simp
  with h sp' f r show ?thesis by blast
qed

text \<open>
  An example input: the tokens of a procedure \<open>a\<close>, a function \<open>b\<close> and a
  procedure \<open>c\<close>, in this order.
\<close>

definition three_definitions :: "token list" where
  "three_definitions =
     [Token DEF [] 1 1, Token NAME ''a'' 1 5, Token LEFT_BRACE [] 1 6,
      Token RIGHT_BRACE [] 1 7, Token NEWLINE [] 1 8, Token END [] 2 1, Token NEWLINE [] 2 4,
      Token DEFFCT [] 3 1, Token NAME ''INT'' 3 8, Token NAME ''b'' 3 12,
      Token LEFT_BRACE [] 3 13, Token RIGHT_BRACE [] 3 14, Token NEWLINE [] 3 15,
      Token ENDFCT [] 4 1, Token NEWLINE [] 4 7,
      Token DEF [] 5 1, Token NAME ''c'' 5 5, Token LEFT_BRACE [] 5 6,
      Token RIGHT_BRACE [] 5 7, Token NEWLINE [] 5 8, Token END [] 6 1, Token NEWLINE [] 6 4,
      Token END_OF_FILE [] 7 1]"

theorem statements_in_source_order_witness:
  "source_file ''m'' (started three_definitions) =
     (Inr (SourceFile ''m'' []
        [FunctionDefinition ''a'' [] [] None False,
         FunctionDefinition ''b'' [] [] (Some (Type ''INT'')) False,
         FunctionDefinition ''c'' [] [] None False]),
      (started three_definitions)\<lparr>position := 23, current_token := None\<rparr>) \<and>
   fst (source_file_loop_spans [] (started three_definitions)) =
     Inr [((0, 7), FunctionDefinition ''a'' [] [] None False),
          ((7, 15), FunctionDefinition ''b'' [] [] (Some (Type ''INT'')) False),
          ((15, 22), FunctionDefinition ''c'' [] [] None False)]"
  using statements_in_source_order [of "''m''" "started three_definitions"
      "SourceFile ''m'' []
        [FunctionDefinition ''a'' [] [] None False,
         FunctionDefinition ''b'' [] [] (Some (Type ''INT'')) False,
         FunctionDefinition ''c'' [] [] None False]"
      "(started three_definitions)\<lparr>position := 23, current_token := None\<rparr>"]
  by (simp add: started_def Parser_def three_definitions_def run source_file_loop_spans.simps)

section \<open>Running time\<close>

text \<open>
  The steps of a run: every call of a method of the parser and every round of a loop
  is one step. \<open>T_m s\<close> counts the steps of \<open>m\<close> from the parser \<open>s\<close>, and follows the
  definition of \<open>m\<close>: \<open>T_bind\<close> adds the steps of what runs after \<open>m\<close> when \<open>m\<close>
  returns, and nothing when it raises.
\<close>

definition T_bind ::
  "'a action \<Rightarrow> (parser \<Rightarrow> nat) \<Rightarrow> ('a \<Rightarrow> parser \<Rightarrow> nat) \<Rightarrow> parser \<Rightarrow> nat" where
  "T_bind m T_m T_f s = T_m s + (case m s of (Inl e, s') \<Rightarrow> 0 | (Inr x, s') \<Rightarrow> T_f x s')"

definition T_return :: "parser \<Rightarrow> nat" where
  "T_return s = 0"

definition T_error :: "parser \<Rightarrow> nat" where
  "T_error s = 1"

definition T_advance :: "parser \<Rightarrow> nat" where
  "T_advance s = 1"

definition T_eat :: "token_type \<Rightarrow> parser \<Rightarrow> nat" where
  "T_eat k s =
     Suc (case current_token s of
            None \<Rightarrow> 0
          | Some t \<Rightarrow>
              if token_type t = k then T_bind advance T_advance (\<lambda>_. T_return) s
              else T_error s)"

definition T_try_eat :: "token_type \<Rightarrow> parser \<Rightarrow> nat" where
  "T_try_eat k s = Suc (T_eat k s)"

definition T_is_current_token :: "token_type \<Rightarrow> parser \<Rightarrow> nat" where
  "T_is_current_token k s = 1"

lemma T_bind_cong [fundef_cong]:
  assumes "m = m'" and "T_m = T_m'" and "s = s'"
    and "\<And>x t. m' s' = (Inr x, t) \<Longrightarrow> T_f x t = T_f' x t"
  shows "T_bind m T_m T_f s = T_bind m' T_m' T_f' s'"
  using assms by (auto simp: T_bind_def split: prod.splits sum.splits)

function T_skip_newlines :: "parser \<Rightarrow> nat" where
  "T_skip_newlines s =
     Suc (T_bind (try_eat NEWLINE) (T_try_eat NEWLINE) (\<lambda>more s'.
            if more then T_skip_newlines s' else T_return s') s)"
  by pat_completeness auto
termination
  by (relation "measure remaining") (auto simp: try_eat_True)

declare T_skip_newlines.simps [simp del]

text \<open>
  \<open>fits c n m T\<close>: with \<open>c\<close> steps in hand for each unit of \<open>remaining\<close>, the steps of
  \<open>m\<close> are paid by the units it uses up and \<open>n\<close> steps more.
\<close>

definition fits_at :: "nat \<Rightarrow> nat \<Rightarrow> 'a action \<Rightarrow> (parser \<Rightarrow> nat) \<Rightarrow> parser \<Rightarrow> bool" where
  "fits_at c n m T s \<longleftrightarrow> T s + c * remaining (snd (m s)) \<le> c * remaining s + n"

definition fits :: "nat \<Rightarrow> nat \<Rightarrow> 'a action \<Rightarrow> (parser \<Rightarrow> nat) \<Rightarrow> bool" where
  "fits c n m T \<longleftrightarrow> (\<forall>s. fits_at c n m T s)"

lemma fitsD:
  assumes "fits c n m T" and "m s = (r, s')"
  shows "T s + c * remaining s' \<le> c * remaining s + n"
proof -
  from assms(1) have "fits_at c n m T s" by (simp add: fits_def)
  with assms(2) show ?thesis by (simp add: fits_at_def)
qed

lemma fits_mono: "fits c n m T \<Longrightarrow> n \<le> n' \<Longrightarrow> fits c n' m T"
  by (auto simp: fits_def fits_at_def intro: le_trans)

lemma fits_return: "fits c 0 (return x) T_return"
  by (simp add: fits_def fits_at_def return_def T_return_def)

lemma fits_error: "fits c 1 (error msg) T_error"
  by (simp add: fits_def fits_at_def error_def T_error_def split: option.splits)

lemma fits_is_current_token: "fits c 1 (is_current_token k) (T_is_current_token k)"
  by (simp add: fits_def fits_at_def is_current_token_def T_is_current_token_def
      split: option.splits)

lemma T_eat_le: "T_eat k s \<le> 2"
  by (simp add: T_eat_def T_bind_def T_advance_def T_return_def T_error_def advance_def Let_def
      split: option.splits)

lemma fits_eat: "fits c 2 (eat k) (T_eat k)"
  unfolding fits_def fits_at_def
proof
  fix s
  obtain r s' where e: "eat k s = (r, s')" by (cases "eat k s")
  from steadyD(5) [OF steady_eat e] have "c * remaining s' \<le> c * remaining s"
    by (rule mult_le_mono2)
  with T_eat_le [of k s] have "T_eat k s + c * remaining s' \<le> c * remaining s + 2"
    by linarith
  with e show "T_eat k s + c * remaining (snd (eat k s)) \<le> c * remaining s + 2"
    by (simp only: snd_conv)
qed

lemma fits_try_eat: "fits c 3 (try_eat k) (T_try_eat k)"
  unfolding fits_def fits_at_def
proof
  fix s
  obtain r s' where e: "try_eat k s = (r, s')" by (cases "try_eat k s")
  from steadyD(5) [OF steady_try_eat e] have "c * remaining s' \<le> c * remaining s"
    by (rule mult_le_mono2)
  with T_eat_le [of k s] have "T_try_eat k s + c * remaining s' \<le> c * remaining s + 3"
    unfolding T_try_eat_def by linarith
  with e show "T_try_eat k s + c * remaining (snd (try_eat k s)) \<le> c * remaining s + 3"
    by (simp only: snd_conv)
qed

lemma fits_bind:
  assumes "fits c n1 m T_m" and "\<And>x. fits c n2 (f x) (T_f x)"
  shows "fits c (n1 + n2) (bind m f) (T_bind m T_m T_f)"
  unfolding fits_def fits_at_def
proof
  fix s
  obtain r s1 where m: "m s = (r, s1)" by (cases "m s")
  note a = fitsD [OF assms(1) m]
  show "T_bind m T_m T_f s + c * remaining (snd (bind m f s)) \<le> c * remaining s + (n1 + n2)"
  proof (cases r)
    case (Inl e)
    with m a show ?thesis by (simp add: bind_def T_bind_def)
  next
    case (Inr x)
    obtain r2 s2 where f: "f x s1 = (r2, s2)" by (cases "f x s1")
    note b = fitsD [OF assms(2) f]
    from Inr m f a b show ?thesis by (simp add: bind_def T_bind_def)
  qed
qed

lemma fits_if:
  assumes "fits c n1 a T_a" and "fits c n2 b T_b"
  shows "fits c (max n1 n2) (if p then a else b) (if p then T_a else T_b)"
  using assms by (auto intro: fits_mono)

lemma fits_case_option:
  assumes "fits c n1 a T_a" and "\<And>y. fits c n2 (b y) (T_b y)"
  shows "fits c (max n1 n2) (case x of None \<Rightarrow> a | Some y \<Rightarrow> b y)
           (case x of None \<Rightarrow> T_a | Some y \<Rightarrow> T_b y)"
proof (cases x)
  case None
  with fits_mono [OF assms(1), of "max n1 n2"] show ?thesis by simp
next
  case (Some y)
  with fits_mono [OF assms(2), of "max n1 n2" y] show ?thesis by simp
qed

lemma fits_Suc:
  assumes "fits c n m T"
  shows "fits c (Suc n) m (\<lambda>s. Suc (T s))"
  using assms by (simp add: fits_def fits_at_def)

text \<open>
  One round of a loop, in numbers: the test takes the measure from \<open>r\<close> to \<open>rC\<close>, the
  body from \<open>rC\<close> to less, \<open>rB\<close>, and the rounds after it are paid from \<open>rB\<close>. When \<open>c\<close>
  exceeds what the test and the body need beyond \<open>cB\<close> per unit, the unit the body used
  up pays for the round.
\<close>

lemma round_budget:
  fixes c cB :: nat
  assumes test: "TC + c * rC \<le> c * r + nC"
    and body: "TB + cB * rB \<le> cB * rC + nB"
    and less: "rB < rC"
    and big: "cB + nB + nC + 1 \<le> c"
    and rest: "TL + c * rE \<le> c * rB + nL"
  shows "Suc (TC + (TB + TL)) + c * rE \<le> c * r + nL"
proof -
  from less obtain d where rC: "rC = rB + Suc d" by (auto simp: less_iff_Suc_add)
  from body rC have tb: "TB \<le> cB * Suc d + nB" by (simp add: algebra_simps)
  from big have "(cB + nB + nC + 1) * Suc d \<le> c * Suc d" by (rule mult_le_mono1)
  moreover have "cB * Suc d + nB + nC + 1 \<le> (cB + nB + nC + 1) * Suc d"
    by (simp add: algebra_simps)
  ultimately have "cB * Suc d + nB + nC + 1 \<le> c * Suc d" by (rule le_trans [rotated])
  moreover have "c * rC = c * rB + c * Suc d" by (simp add: rC algebra_simps)
  ultimately show ?thesis using test tb rest by linarith
qed

lemma fits_skip_newlines:
  assumes "4 \<le> c"
  shows "fits c 4 skip_newlines T_skip_newlines"
proof -
  have "fits_at c 4 skip_newlines T_skip_newlines s" for s
  proof (induction s rule: skip_newlines.induct)
    case (1 s)
    obtain r s1 where t: "try_eat NEWLINE s = (r, s1)" by (cases "try_eat NEWLINE s")
    note a = fitsD [OF fits_try_eat t, of c]
    have "T_skip_newlines s + c * remaining (snd (skip_newlines s)) \<le> c * remaining s + 4"
    proof (cases r)
      case (Inl e)
      with t a show ?thesis
        by (subst skip_newlines.simps, subst T_skip_newlines.simps)
          (simp add: bind_def T_bind_def)
    next
      case (Inr more)
      show ?thesis
      proof (cases more)
        case False
        with Inr t a show ?thesis
          by (subst skip_newlines.simps, subst T_skip_newlines.simps)
            (simp add: bind_def T_bind_def return_def T_return_def)
      next
        case True
        from "1.IH" [of more s1] t Inr True
        have ih: "T_skip_newlines s1 + c * remaining (snd (skip_newlines s1))
                    \<le> c * remaining s1 + 4"
          by (simp add: fits_at_def)
        from fitsD [OF fits_try_eat t, of 0]
        have b: "T_try_eat NEWLINE s + 0 * remaining s1 \<le> 0 * remaining s + 3" by simp
        from t Inr True have less: "remaining s1 < remaining s" by (simp add: try_eat_True)
        have test: "0 + c * remaining s \<le> c * remaining s + 0" by simp
        have "Suc (0 + (T_try_eat NEWLINE s + T_skip_newlines s1))
                + c * remaining (snd (skip_newlines s1)) \<le> c * remaining s + 4"
          using assms by (intro round_budget [OF test b less _ ih]) simp
        with t Inr True show ?thesis
          by (subst skip_newlines.simps, subst T_skip_newlines.simps)
            (simp add: bind_def T_bind_def)
      qed
    qed
    then show ?case by (simp add: fits_at_def)
  qed
  then show ?thesis by (simp add: fits_def)
qed

text \<open>
  One round of a loop: the test \<open>C\<close>, then the body \<open>B\<close> and the rounds after it, or the
  end of the loop. When the body uses up a unit and \<open>c\<close> is large enough, the loop fits
  with the steps of one test and one body more.
\<close>

lemma loop_round:
  assumes L: "loop_s = bind C (\<lambda>more s1. if more then bind B K s1 else return acc s1) s"
    and T: "T_s = Suc (T_bind C T_C (\<lambda>more s1.
                         if more then T_bind B T_B (\<lambda>x. T_K) s1 else T_return s1) s)"
    and C: "fits c nC C T_C" and B: "fits c nB B T_B" and B0: "fits cB nB B T_B"
    and less: "\<And>s1 x s2. C s = (Inr True, s1) \<Longrightarrow> B s1 = (Inr x, s2) \<Longrightarrow>
                 remaining s2 < remaining s1"
    and big: "cB + nB + nC + 1 \<le> c"
    and IH: "\<And>s1 x s2. C s = (Inr True, s1) \<Longrightarrow> B s1 = (Inr x, s2) \<Longrightarrow>
               T_K s2 + c * remaining (snd (K x s2)) \<le> c * remaining s2 + Suc (nC + nB)"
  shows "T_s + c * remaining (snd loop_s) \<le> c * remaining s + Suc (nC + nB)"
proof -
  obtain r s1 where c: "C s = (r, s1)" by (cases "C s")
  note fc = fitsD [OF C c]
  show ?thesis
  proof (cases r)
    case (Inl e)
    with c fc show ?thesis by (simp add: L T bind_def T_bind_def)
  next
    case (Inr more)
    show ?thesis
    proof (cases more)
      case False
      with Inr c fc show ?thesis
        by (simp add: L T bind_def T_bind_def return_def T_return_def)
    next
      case True
      obtain r2 s2 where b: "B s1 = (r2, s2)" by (cases "B s1")
      note fb = fitsD [OF B b]
      show ?thesis
      proof (cases r2)
        case (Inl e)
        with True Inr c fc b fb show ?thesis by (simp add: L T bind_def T_bind_def)
      next
        case bx: (Inr x)
        from c Inr True b bx have c': "C s = (Inr True, s1)" and b': "B s1 = (Inr x, s2)"
          by simp_all
        have "Suc (T_C s + (T_B s1 + T_K s2)) + c * remaining (snd (K x s2))
                \<le> c * remaining s + Suc (nC + nB)"
          by (rule round_budget [OF fc fitsD [OF B0 b] less [OF c' b'] big IH [OF c' b']])
        with c' b' show ?thesis by (simp add: L T bind_def T_bind_def)
      qed
    qed
  qed
qed

lemma bind_assoc: "bind (bind m f) g = bind m (\<lambda>x. bind (f x) g)"
  by (rule ext) (simp add: bind_def split: prod.splits sum.splits)

lemma bind_return: "bind (return x) f = f x"
  by (rule ext) (simp add: bind_def return_def)

lemma T_bind_assoc:
  "T_bind (bind m f) (T_bind m T_m T_f) T_g = T_bind m T_m (\<lambda>x. T_bind (f x) (T_f x) T_g)"
  by (rule ext) (simp add: bind_def T_bind_def split: prod.splits sum.splits)

lemma T_bind_return: "T_bind (return x) T_return T_g = T_g x"
  by (rule ext) (simp add: T_bind_def return_def T_return_def)

lemmas fits_rules = fits_Suc fits_bind fits_if fits_case_option fits_return fits_error
  fits_is_current_token fits_eat fits_try_eat

definition T_param_def :: "parser \<Rightarrow> nat" where
  "T_param_def s =
     Suc (T_bind (eat NAME) (T_eat NAME) (\<lambda>name.
          T_bind (eat COLON) (T_eat COLON) (\<lambda>_.
          T_bind (bind (try_eat IN) (\<lambda>is_in.
                    if is_in then return (Some TYPE_IN)
                    else bind (try_eat OUT) (\<lambda>is_out.
                      if is_out then return (Some TYPE_OUT) else return None)))
                 (T_bind (try_eat IN) (T_try_eat IN) (\<lambda>is_in.
                    if is_in then T_return
                    else T_bind (try_eat OUT) (T_try_eat OUT) (\<lambda>is_out.
                      if is_out then T_return else T_return))) (\<lambda>parameter_type.
          case parameter_type of None \<Rightarrow> T_error | Some direction \<Rightarrow> T_return))) s)"

lemma fits_param_def: "fits c 12 param_def T_param_def"
  unfolding param_def_def T_param_def_def
  by (rule fits_mono, (rule fits_rules)+) simp

function T_params_def_loop :: "parser \<Rightarrow> nat" where
  "T_params_def_loop s =
     Suc (T_bind (try_eat COMMA) (T_try_eat COMMA) (\<lambda>more s1.
            if more then T_bind param_def T_param_def (\<lambda>p s2. T_params_def_loop s2) s1
            else T_return s1) s)"
  by pat_completeness auto
termination
proof (relation "measure remaining", goal_cases)
  case 1
  show ?case by simp
next
  case (2 s more s1 p s2)
  from 2 have "remaining s1 < remaining s" "remaining s2 \<le> remaining s1"
    by (auto dest: try_eat_True steadyD [OF steady_param_def])
  then show ?case by simp
qed

declare T_params_def_loop.simps [simp del]

lemma fits_params_def_loop:
  assumes "16 \<le> c"
  shows "fits c 16 (params_def_loop parameters) T_params_def_loop"
proof -
  have "fits_at c 16 (params_def_loop parameters) T_params_def_loop s" for s parameters
  proof (induction parameters s rule: params_def_loop.induct)
    case (1 parameters s)
    have "T_params_def_loop s + c * remaining (snd (params_def_loop parameters s))
            \<le> c * remaining s + Suc (3 + 12)"
    proof (rule loop_round [where cB = 0 and K = "\<lambda>p. params_def_loop (parameters @ [p])"])
      show "params_def_loop parameters s =
              bind (try_eat COMMA) (\<lambda>more s1.
                if more then bind param_def (\<lambda>p. params_def_loop (parameters @ [p])) s1
                else return parameters s1) s"
        by (rule params_def_loop.simps)
      show "T_params_def_loop s =
              Suc (T_bind (try_eat COMMA) (T_try_eat COMMA) (\<lambda>more s1.
                if more then T_bind param_def T_param_def (\<lambda>p. T_params_def_loop) s1
                else T_return s1) s)"
        by (rule T_params_def_loop.simps)
      show "fits c 3 (try_eat COMMA) (T_try_eat COMMA)" by (rule fits_try_eat)
      show "fits c 12 param_def T_param_def" by (rule fits_param_def)
      show "fits 0 12 param_def T_param_def" by (rule fits_param_def)
      show "remaining s2 < remaining s1" if "param_def s1 = (Inr x, s2)" for s1 x s2
        using that by (rule consumingD(2) [OF consuming_param_def])
      show "0 + 12 + 3 + 1 \<le> c" using assms by simp
      show "T_params_def_loop s2 + c * remaining (snd (params_def_loop (parameters @ [x]) s2))
              \<le> c * remaining s2 + Suc (3 + 12)"
        if "try_eat COMMA s = (Inr True, s1)" and "param_def s1 = (Inr x, s2)" for s1 x s2
        using "1.IH" [OF that(1) _ that(2)] by (simp add: fits_at_def)
    qed
    then show ?case by (simp add: fits_at_def)
  qed
  then show ?thesis by (simp add: fits_def)
qed

definition T_params_def :: "parser \<Rightarrow> nat" where
  "T_params_def s =
     Suc (T_bind (is_current_token NAME) (T_is_current_token NAME) (\<lambda>is_name.
            if \<not> is_name then T_return
            else T_bind param_def T_param_def (\<lambda>p. T_params_def_loop)) s)"

lemma fits_params_def:
  assumes "16 \<le> c"
  shows "fits c 30 params_def T_params_def"
  unfolding params_def_def T_params_def_def
  by (rule fits_mono, (rule fits_rules fits_param_def fits_params_def_loop [OF assms])+) simp

definition T_param :: "parser \<Rightarrow> nat" where
  "T_param s = Suc (T_bind (eat NAME) (T_eat NAME) (\<lambda>t. T_return) s)"

lemma fits_param: "fits c 3 param T_param"
  unfolding param_def T_param_def
  by (rule fits_mono, (rule fits_rules)+) simp

function T_params_loop :: "parser \<Rightarrow> nat" where
  "T_params_loop s =
     Suc (T_bind (try_eat COMMA) (T_try_eat COMMA) (\<lambda>more s1.
            if more then T_bind param T_param (\<lambda>p s2. T_params_loop s2) s1
            else T_return s1) s)"
  by pat_completeness auto
termination
proof (relation "measure remaining", goal_cases)
  case 1
  show ?case by simp
next
  case (2 s more s1 p s2)
  from 2 have "remaining s1 < remaining s" "remaining s2 \<le> remaining s1"
    by (auto dest: try_eat_True steadyD [OF steady_param])
  then show ?case by simp
qed

declare T_params_loop.simps [simp del]

lemma consuming_param: "consuming param"
  unfolding param_def by (rule consuming_bind1) auto

lemma fits_params_loop:
  assumes "7 \<le> c"
  shows "fits c 7 (params_loop parameters) T_params_loop"
proof -
  have "fits_at c 7 (params_loop parameters) T_params_loop s" for s parameters
  proof (induction parameters s rule: params_loop.induct)
    case (1 parameters s)
    have "T_params_loop s + c * remaining (snd (params_loop parameters s))
            \<le> c * remaining s + Suc (3 + 3)"
    proof (rule loop_round [where cB = 0 and K = "\<lambda>p. params_loop (parameters @ [p])"])
      show "params_loop parameters s =
              bind (try_eat COMMA) (\<lambda>more s1.
                if more then bind param (\<lambda>p. params_loop (parameters @ [p])) s1
                else return parameters s1) s"
        by (rule params_loop.simps)
      show "T_params_loop s =
              Suc (T_bind (try_eat COMMA) (T_try_eat COMMA) (\<lambda>more s1.
                if more then T_bind param T_param (\<lambda>p. T_params_loop) s1
                else T_return s1) s)"
        by (rule T_params_loop.simps)
      show "fits c 3 (try_eat COMMA) (T_try_eat COMMA)" by (rule fits_try_eat)
      show "fits c 3 param T_param" by (rule fits_param)
      show "fits 0 3 param T_param" by (rule fits_param)
      show "remaining s2 < remaining s1" if "param s1 = (Inr x, s2)" for s1 x s2
        using that by (rule consumingD(2) [OF consuming_param])
      show "0 + 3 + 3 + 1 \<le> c" using assms by simp
      show "T_params_loop s2 + c * remaining (snd (params_loop (parameters @ [x]) s2))
              \<le> c * remaining s2 + Suc (3 + 3)"
        if "try_eat COMMA s = (Inr True, s1)" and "param s1 = (Inr x, s2)" for s1 x s2
        using "1.IH" [OF that(1) _ that(2)] by (simp add: fits_at_def)
    qed
    then show ?case by (simp add: fits_at_def)
  qed
  then show ?thesis by (simp add: fits_def)
qed

definition T_params :: "parser \<Rightarrow> nat" where
  "T_params s =
     Suc (T_bind (is_current_token NAME) (T_is_current_token NAME) (\<lambda>is_name.
            if \<not> is_name then T_return
            else T_bind param T_param (\<lambda>p. T_params_loop)) s)"

lemma fits_params:
  assumes "7 \<le> c"
  shows "fits c 12 params T_params"
  unfolding params_def T_params_def
  by (rule fits_mono, (rule fits_rules fits_param fits_params_loop [OF assms])+) simp

definition T_mod_call :: "parser \<Rightarrow> nat" where
  "T_mod_call s =
     Suc (T_bind (eat NAME) (T_eat NAME) (\<lambda>function.
          T_bind (eat LEFT_BRACE) (T_eat LEFT_BRACE) (\<lambda>_.
          T_bind params T_params (\<lambda>parameters.
          T_bind (eat RIGHT_BRACE) (T_eat RIGHT_BRACE) (\<lambda>_.
          T_bind (eat NEWLINE) (T_eat NEWLINE) (\<lambda>_.
          T_return))))) s)"

lemma fits_mod_call:
  assumes "7 \<le> c"
  shows "fits c 21 mod_call T_mod_call"
  unfolding mod_call_def T_mod_call_def
  by (rule fits_mono, (rule fits_rules fits_params [OF assms])+) simp

function T_body_loop :: "parser \<Rightarrow> nat" where
  "T_body_loop s =
     Suc (T_bind skip_newlines T_skip_newlines (\<lambda>_.
          T_bind (is_current_token NAME) (T_is_current_token NAME) (\<lambda>is_name s1.
            if is_name then T_bind mod_call T_mod_call (\<lambda>c s2. T_body_loop s2) s1
            else T_return s1)) s)"
  by pat_completeness auto
termination
proof (relation "measure remaining", goal_cases)
  case 1
  show ?case by simp
next
  case (2 s u s1 is_name s2 c s3)
  from 2 have "remaining s1 \<le> remaining s" "remaining s2 \<le> remaining s1"
    "remaining s3 < remaining s2"
    by (auto dest: steadyD [OF steady_skip_newlines] steadyD [OF steady_is_current_token]
        consumingD [OF consuming_mod_call])
  then show ?case by simp
qed

declare T_body_loop.simps [simp del]

lemma fits_body_loop:
  assumes "34 \<le> c"
  shows "fits c 27 (body_loop calls) T_body_loop"
proof -
  from assms have c4: "4 \<le> c" and c7: "7 \<le> c" by simp_all
  have "fits_at c 27 (body_loop calls) T_body_loop s" for s calls
  proof (induction calls s rule: body_loop.induct)
    case (1 calls s)
    have "T_body_loop s + c * remaining (snd (body_loop calls s))
            \<le> c * remaining s + Suc (5 + 21)"
    proof (rule loop_round [where cB = 7 and K = "\<lambda>x. body_loop (calls @ [x])"])
      show "body_loop calls s =
              bind (bind skip_newlines (\<lambda>_. is_current_token NAME)) (\<lambda>more s1.
                if more then bind mod_call (\<lambda>x. body_loop (calls @ [x])) s1
                else return calls s1) s"
        by (subst body_loop.simps) (simp add: bind_assoc)
      show "T_body_loop s =
              Suc (T_bind (bind skip_newlines (\<lambda>_. is_current_token NAME))
                     (T_bind skip_newlines T_skip_newlines (\<lambda>_. T_is_current_token NAME))
                     (\<lambda>more s1.
                        if more then T_bind mod_call T_mod_call (\<lambda>x. T_body_loop) s1
                        else T_return s1) s)"
        by (subst T_body_loop.simps) (simp add: T_bind_assoc)
      show "fits c 5 (bind skip_newlines (\<lambda>_. is_current_token NAME))
              (T_bind skip_newlines T_skip_newlines (\<lambda>_. T_is_current_token NAME))"
        by (rule fits_mono, (rule fits_rules fits_skip_newlines [OF c4])+) simp
      show "fits c 21 mod_call T_mod_call" by (rule fits_mod_call [OF c7])
      show "fits 7 21 mod_call T_mod_call" by (rule fits_mod_call) simp
      show "remaining s2 < remaining s1" if "mod_call s1 = (Inr x, s2)" for s1 x s2
        using that by (rule consumingD(2) [OF consuming_mod_call])
      show "7 + 21 + 5 + 1 \<le> c" using assms by simp
      show "T_body_loop s2 + c * remaining (snd (body_loop (calls @ [x]) s2))
              \<le> c * remaining s2 + Suc (5 + 21)"
        if t: "bind skip_newlines (\<lambda>_. is_current_token NAME) s = (Inr True, s1)"
          and b: "mod_call s1 = (Inr x, s2)" for s1 x s2
      proof -
        from t obtain u s0 where "skip_newlines s = (Inr u, s0)"
          "is_current_token NAME s0 = (Inr True, s1)"
          by (auto simp: bind_Inr)
        from "1.IH" [OF this(1) this(2) _ b] show ?thesis by (simp add: fits_at_def)
      qed
    qed
    then show ?case by (simp add: fits_at_def)
  qed
  then show ?thesis by (simp add: fits_def)
qed

definition T_body :: "parser \<Rightarrow> nat" where
  "T_body s = Suc (T_body_loop s)"

lemma fits_body:
  assumes "34 \<le> c"
  shows "fits c 28 body T_body"
  unfolding body_def T_body_def
  by (rule fits_mono, (rule fits_rules fits_body_loop [OF assms])+) simp

definition T_mod_def :: "parser \<Rightarrow> nat" where
  "T_mod_def s =
     Suc (T_bind skip_newlines T_skip_newlines (\<lambda>_.
          T_bind (try_eat GLOBAL) (T_try_eat GLOBAL) (\<lambda>global_definition.
          T_bind (is_current_token DEF) (T_is_current_token DEF) (\<lambda>is_def.
            if \<not> is_def then T_return
            else
              T_bind (eat DEF) (T_eat DEF) (\<lambda>_.
              T_bind (eat NAME) (T_eat NAME) (\<lambda>name.
              T_bind (eat LEFT_BRACE) (T_eat LEFT_BRACE) (\<lambda>_.
              T_bind params_def T_params_def (\<lambda>parameters.
              T_bind (eat RIGHT_BRACE) (T_eat RIGHT_BRACE) (\<lambda>_.
              T_bind (eat NEWLINE) (T_eat NEWLINE) (\<lambda>_.
              T_bind skip_newlines T_skip_newlines (\<lambda>_.
              T_bind body T_body (\<lambda>body.
              T_bind (eat END) (T_eat END) (\<lambda>_.
              T_bind skip_newlines T_skip_newlines (\<lambda>_.
              T_return))))))))))))) s)"

definition T_fnc_def :: "parser \<Rightarrow> nat" where
  "T_fnc_def s =
     Suc (T_bind skip_newlines T_skip_newlines (\<lambda>_.
          T_bind (try_eat GLOBAL) (T_try_eat GLOBAL) (\<lambda>global_definition.
          T_bind (is_current_token DEFFCT) (T_is_current_token DEFFCT) (\<lambda>is_deffct.
            if \<not> is_deffct then T_return
            else
              T_bind (eat DEFFCT) (T_eat DEFFCT) (\<lambda>_.
              T_bind (eat NAME) (T_eat NAME) (\<lambda>return_type.
              T_bind (eat NAME) (T_eat NAME) (\<lambda>name.
              T_bind (eat LEFT_BRACE) (T_eat LEFT_BRACE) (\<lambda>_.
              T_bind params_def T_params_def (\<lambda>parameters.
              T_bind (eat RIGHT_BRACE) (T_eat RIGHT_BRACE) (\<lambda>_.
              T_bind (eat NEWLINE) (T_eat NEWLINE) (\<lambda>_.
              T_bind skip_newlines T_skip_newlines (\<lambda>_.
              T_bind body T_body (\<lambda>body.
              T_bind (eat ENDFCT) (T_eat ENDFCT) (\<lambda>_.
              T_bind skip_newlines T_skip_newlines (\<lambda>_.
              T_return)))))))))))))) s)"

definition T_dat_def :: "parser \<Rightarrow> nat" where
  "T_dat_def s =
     Suc (T_bind skip_newlines T_skip_newlines (\<lambda>_.
          T_bind (eat DEFDAT) (T_eat DEFDAT) (\<lambda>_.
          T_bind (eat NAME) (T_eat NAME) (\<lambda>name.
          T_bind (try_eat PUBLIC) (T_try_eat PUBLIC) (\<lambda>public_definition.
          T_bind (eat NEWLINE) (T_eat NEWLINE) (\<lambda>_.
          T_bind skip_newlines T_skip_newlines (\<lambda>_.
          T_bind (eat ENDDAT) (T_eat ENDDAT) (\<lambda>_.
          T_bind skip_newlines T_skip_newlines (\<lambda>_.
          T_return)))))))) s)"

lemma fits_mod_def:
  assumes "34 \<le> c"
  shows "fits c 87 mod_def T_mod_def"
proof -
  from assms have c4: "4 \<le> c" and c16: "16 \<le> c" by simp_all
  show ?thesis
    unfolding mod_def_def T_mod_def_def
    by (rule fits_mono, (rule fits_rules fits_skip_newlines [OF c4] fits_params_def [OF c16]
          fits_body [OF assms])+) simp
qed

lemma fits_fnc_def:
  assumes "34 \<le> c"
  shows "fits c 89 fnc_def T_fnc_def"
proof -
  from assms have c4: "4 \<le> c" and c16: "16 \<le> c" by simp_all
  show ?thesis
    unfolding fnc_def_def T_fnc_def_def
    by (rule fits_mono, (rule fits_rules fits_skip_newlines [OF c4] fits_params_def [OF c16]
          fits_body [OF assms])+) simp
qed

lemma fits_dat_def:
  assumes "4 \<le> c"
  shows "fits c 24 dat_def T_dat_def"
  unfolding dat_def_def T_dat_def_def
  by (rule fits_mono, (rule fits_rules fits_skip_newlines [OF assms])+) simp

fun T_any_is_current_token :: "token_type list \<Rightarrow> parser \<Rightarrow> nat" where
  "T_any_is_current_token [] = T_return"
| "T_any_is_current_token (k # ks) =
     T_bind (is_current_token k) (T_is_current_token k) (\<lambda>found.
       if found then T_return else T_any_is_current_token ks)"

lemma fits_any_is_current_token:
  "fits c (length ks) (any_is_current_token ks) (T_any_is_current_token ks)"
proof (induction ks)
  case Nil
  show ?case by (simp add: fits_return)
next
  case (Cons k ks)
  show ?case
    unfolding any_is_current_token.simps T_any_is_current_token.simps
    by (rule fits_mono, (rule fits_rules Cons.IH)+) simp
qed

function T_source_file_loop :: "parser \<Rightarrow> nat" where
  "T_source_file_loop s =
     Suc (T_bind (any_is_current_token [GLOBAL, DEF, DEFFCT])
            (T_any_is_current_token [GLOBAL, DEF, DEFFCT]) (\<lambda>more s1.
            if more then
              T_bind mod_def T_mod_def (\<lambda>m.
              T_bind fnc_def T_fnc_def (\<lambda>f s3.
              T_source_file_loop s3)) s1
            else T_return s1) s)"
  by pat_completeness auto
termination
proof (relation "measure remaining", goal_cases)
  case 1
  show ?case by simp
next
  case (2 s more s1 m s2 f s3)
  then show ?case by (simp add: source_file_round)
qed

declare T_source_file_loop.simps [simp del]

lemma fits_source_file_loop:
  assumes "214 \<le> c"
  shows "fits c 180 (source_file_loop statements) T_source_file_loop"
proof -
  from assms have c34: "34 \<le> c" by simp
  let ?B = "bind mod_def (\<lambda>m. bind fnc_def (\<lambda>f. return (m, f)))"
  let ?T_B = "T_bind mod_def T_mod_def (\<lambda>m. T_bind fnc_def T_fnc_def (\<lambda>f. T_return))"
  have "fits_at c 180 (source_file_loop statements) T_source_file_loop s" for s statements
  proof (induction statements s rule: source_file_loop.induct)
    case (1 statements s)
    let ?K = "\<lambda>(m, f). source_file_loop
                (statements @ List.map_filter (\<lambda>definition. definition) [m, f])"
    have "T_source_file_loop s + c * remaining (snd (source_file_loop statements s))
            \<le> c * remaining s + Suc (3 + 176)"
    proof (rule loop_round [where cB = 34 and K = ?K and B = ?B and T_B = ?T_B])
      have K: "bind ?B ?K =
                 bind mod_def (\<lambda>m. bind fnc_def (\<lambda>f. source_file_loop
                   (statements @ List.map_filter (\<lambda>definition. definition) [m, f])))"
        by (simp add: bind_assoc bind_return)
      show "source_file_loop statements s =
              bind (any_is_current_token [GLOBAL, DEF, DEFFCT]) (\<lambda>more s1.
                if more then bind ?B ?K s1 else return statements s1) s"
        by (subst source_file_loop.simps) (simp only: K)
      have T_K: "T_bind ?B ?T_B (\<lambda>x. T_source_file_loop) =
                   T_bind mod_def T_mod_def (\<lambda>m. T_bind fnc_def T_fnc_def (\<lambda>f.
                     T_source_file_loop))"
        by (simp add: T_bind_assoc T_bind_return)
      show "T_source_file_loop s =
              Suc (T_bind (any_is_current_token [GLOBAL, DEF, DEFFCT])
                     (T_any_is_current_token [GLOBAL, DEF, DEFFCT]) (\<lambda>more s1.
                     if more then T_bind ?B ?T_B (\<lambda>x. T_source_file_loop) s1
                     else T_return s1) s)"
        by (subst T_source_file_loop.simps) (simp only: T_K)
      show "fits c 3 (any_is_current_token [GLOBAL, DEF, DEFFCT])
              (T_any_is_current_token [GLOBAL, DEF, DEFFCT])"
        by (rule fits_mono [OF fits_any_is_current_token]) simp
      show "fits c 176 ?B ?T_B"
        by (rule fits_mono, (rule fits_rules fits_mod_def [OF c34] fits_fnc_def [OF c34])+)
          simp
      show "fits 34 176 ?B ?T_B"
        by (rule fits_mono, (rule fits_rules fits_mod_def fits_fnc_def | simp)+)
      show "remaining s2 < remaining s1"
        if t: "any_is_current_token [GLOBAL, DEF, DEFFCT] s = (Inr True, s1)"
          and b: "?B s1 = (Inr x, s2)" for s1 x s2
      proof -
        from b obtain m s' f where "mod_def s1 = (Inr m, s')" "fnc_def s' = (Inr f, s2)"
          by (auto simp: bind_Inr return_def)
        from source_file_round [OF t this] any_is_current_token_True [OF t]
        show ?thesis by simp
      qed
      show "34 + 176 + 3 + 1 \<le> c" using assms by simp
      show "T_source_file_loop s2 + c * remaining (snd (?K x s2))
              \<le> c * remaining s2 + Suc (3 + 176)"
        if t: "any_is_current_token [GLOBAL, DEF, DEFFCT] s = (Inr True, s1)"
          and b: "?B s1 = (Inr x, s2)" for s1 x s2
      proof -
        from b obtain m s' f where x: "x = (m, f)" and
          "mod_def s1 = (Inr m, s')" "fnc_def s' = (Inr f, s2)"
          by (auto simp: bind_Inr return_def)
        from "1.IH" [OF t _ this(2,3)] x show ?thesis by (simp add: fits_at_def)
      qed
    qed
    then show ?case by (simp add: fits_at_def)
  qed
  then show ?thesis by (simp add: fits_def)
qed

function T_data_file_loop :: "parser \<Rightarrow> nat" where
  "T_data_file_loop s =
     Suc (T_bind (is_current_token DEFDAT) (T_is_current_token DEFDAT) (\<lambda>more s1.
            if more then T_bind dat_def T_dat_def (\<lambda>d s2. T_data_file_loop s2) s1
            else T_return s1) s)"
  by pat_completeness auto
termination
proof (relation "measure remaining", goal_cases)
  case 1
  show ?case by simp
next
  case (2 s more s1 d s2)
  from 2 have "remaining s1 \<le> remaining s" "remaining s2 < remaining s1"
    by (auto dest: steadyD [OF steady_is_current_token] consumingD [OF consuming_dat_def])
  then show ?case by simp
qed

declare T_data_file_loop.simps [simp del]

lemma fits_data_file_loop:
  assumes "30 \<le> c"
  shows "fits c 26 (data_file_loop statements) T_data_file_loop"
proof -
  from assms have c4: "4 \<le> c" by simp
  have "fits_at c 26 (data_file_loop statements) T_data_file_loop s" for s statements
  proof (induction statements s rule: data_file_loop.induct)
    case (1 statements s)
    have "T_data_file_loop s + c * remaining (snd (data_file_loop statements s))
            \<le> c * remaining s + Suc (1 + 24)"
    proof (rule loop_round [where cB = 4 and K = "\<lambda>d. data_file_loop (statements @ [d])"])
      show "data_file_loop statements s =
              bind (is_current_token DEFDAT) (\<lambda>more s1.
                if more then bind dat_def (\<lambda>d. data_file_loop (statements @ [d])) s1
                else return statements s1) s"
        by (rule data_file_loop.simps)
      show "T_data_file_loop s =
              Suc (T_bind (is_current_token DEFDAT) (T_is_current_token DEFDAT) (\<lambda>more s1.
                if more then T_bind dat_def T_dat_def (\<lambda>d. T_data_file_loop) s1
                else T_return s1) s)"
        by (rule T_data_file_loop.simps)
      show "fits c 1 (is_current_token DEFDAT) (T_is_current_token DEFDAT)"
        by (rule fits_is_current_token)
      show "fits c 24 dat_def T_dat_def" by (rule fits_dat_def [OF c4])
      show "fits 4 24 dat_def T_dat_def" by (rule fits_dat_def) simp
      show "remaining s2 < remaining s1" if "dat_def s1 = (Inr x, s2)" for s1 x s2
        using that by (rule consumingD(2) [OF consuming_dat_def])
      show "4 + 24 + 1 + 1 \<le> c" using assms by simp
      show "T_data_file_loop s2 + c * remaining (snd (data_file_loop (statements @ [x]) s2))
              \<le> c * remaining s2 + Suc (1 + 24)"
        if "is_current_token DEFDAT s = (Inr True, s1)" and "dat_def s1 = (Inr x, s2)"
        for s1 x s2
        using "1.IH" [OF that(1) _ that(2)] by (simp add: fits_at_def)
    qed
    then show ?case by (simp add: fits_at_def)
  qed
  then show ?thesis by (simp add: fits_def)
qed

function T_header_loop :: "parser \<Rightarrow> nat" where
  "T_header_loop s =
     Suc (T_bind (is_current_token FILE_ATTRIBUTE) (T_is_current_token FILE_ATTRIBUTE)
            (\<lambda>more s1.
               if more then
                 T_bind (eat FILE_ATTRIBUTE) (T_eat FILE_ATTRIBUTE) (\<lambda>a.
                 T_bind (eat NEWLINE) (T_eat NEWLINE) (\<lambda>_.
                 T_bind skip_newlines T_skip_newlines (\<lambda>_ s4.
                 T_header_loop s4))) s1
               else T_return s1) s)"
  by pat_completeness auto
termination
proof (relation "measure remaining", goal_cases)
  case 1
  show ?case by simp
next
  case (2 s more s1 a s2 u s3 v s4)
  from 2 have "remaining s1 \<le> remaining s" "remaining s2 < remaining s1"
    "remaining s3 \<le> remaining s2" "remaining s4 \<le> remaining s3"
    by (auto dest: steadyD [OF steady_is_current_token] consumingD [OF consuming_eat]
        steadyD [OF steady_eat] steadyD [OF steady_skip_newlines])
  then show ?case by simp
qed

declare T_header_loop.simps [simp del]

lemma fits_header_loop:
  assumes "14 \<le> c"
  shows "fits c 10 (header_loop attributes) T_header_loop"
proof -
  from assms have c4: "4 \<le> c" by simp
  let ?B = "bind (eat FILE_ATTRIBUTE) (\<lambda>a. bind (eat NEWLINE) (\<lambda>_.
              bind skip_newlines (\<lambda>_. return a)))"
  let ?T_B = "T_bind (eat FILE_ATTRIBUTE) (T_eat FILE_ATTRIBUTE) (\<lambda>a.
                T_bind (eat NEWLINE) (T_eat NEWLINE) (\<lambda>_.
                T_bind skip_newlines T_skip_newlines (\<lambda>_. T_return)))"
  have consuming_B: "consuming ?B" by (rule consuming_bind1) auto
  have "fits_at c 10 (header_loop attributes) T_header_loop s" for s attributes
  proof (induction attributes s rule: header_loop.induct)
    case (1 attributes s)
    let ?K = "\<lambda>a. header_loop (attributes @ [FileAttribute (val a)])"
    have "T_header_loop s + c * remaining (snd (header_loop attributes s))
            \<le> c * remaining s + Suc (1 + 8)"
    proof (rule loop_round [where cB = 4 and K = ?K and B = ?B and T_B = ?T_B])
      have K: "bind ?B ?K =
                 bind (eat FILE_ATTRIBUTE) (\<lambda>a. bind (eat NEWLINE) (\<lambda>_.
                   bind skip_newlines (\<lambda>_.
                   header_loop (attributes @ [FileAttribute (val a)]))))"
        by (simp add: bind_assoc bind_return)
      show "header_loop attributes s =
              bind (is_current_token FILE_ATTRIBUTE) (\<lambda>more s1.
                if more then bind ?B ?K s1 else return attributes s1) s"
        by (subst header_loop.simps) (simp only: K)
      have T_K: "T_bind ?B ?T_B (\<lambda>x. T_header_loop) =
                   T_bind (eat FILE_ATTRIBUTE) (T_eat FILE_ATTRIBUTE) (\<lambda>a.
                   T_bind (eat NEWLINE) (T_eat NEWLINE) (\<lambda>_.
                   T_bind skip_newlines T_skip_newlines (\<lambda>_. T_header_loop)))"
        by (simp add: T_bind_assoc T_bind_return)
      show "T_header_loop s =
              Suc (T_bind (is_current_token FILE_ATTRIBUTE)
                     (T_is_current_token FILE_ATTRIBUTE) (\<lambda>more s1.
                     if more then T_bind ?B ?T_B (\<lambda>x. T_header_loop) s1
                     else T_return s1) s)"
        by (subst T_header_loop.simps) (simp only: T_K)
      show "fits c 1 (is_current_token FILE_ATTRIBUTE) (T_is_current_token FILE_ATTRIBUTE)"
        by (rule fits_is_current_token)
      show "fits c 8 ?B ?T_B"
        by (rule fits_mono, (rule fits_rules fits_skip_newlines [OF c4])+) simp
      show "fits 4 8 ?B ?T_B"
        by (rule fits_mono, (rule fits_rules fits_skip_newlines | simp)+)
      show "remaining s2 < remaining s1" if "?B s1 = (Inr x, s2)" for s1 x s2
        using that by (rule consumingD(2) [OF consuming_B])
      show "4 + 8 + 1 + 1 \<le> c" using assms by simp
      show "T_header_loop s2 + c * remaining (snd (?K x s2))
              \<le> c * remaining s2 + Suc (1 + 8)"
        if t: "is_current_token FILE_ATTRIBUTE s = (Inr True, s1)"
          and b: "?B s1 = (Inr x, s2)" for s1 x s2
      proof -
        from b obtain sa u sb v where "eat FILE_ATTRIBUTE s1 = (Inr x, sa)"
          "eat NEWLINE sa = (Inr u, sb)" "skip_newlines sb = (Inr v, s2)"
          by (auto simp: bind_Inr return_def)
        from "1.IH" [OF t _ this] show ?thesis by (simp add: fits_at_def)
      qed
    qed
    then show ?case by (simp add: fits_at_def)
  qed
  then show ?thesis by (simp add: fits_def)
qed

definition T_header :: "parser \<Rightarrow> nat" where
  "T_header s = Suc (T_header_loop s)"

lemma fits_header:
  assumes "14 \<le> c"
  shows "fits c 11 header T_header"
  unfolding header_def T_header_def
  by (rule fits_mono, (rule fits_rules fits_header_loop [OF assms])+) simp

definition T_source_file :: "string \<Rightarrow> parser \<Rightarrow> nat" where
  "T_source_file name s =
     Suc (T_bind header T_header (\<lambda>attributes.
          T_bind (source_file_loop []) T_source_file_loop (\<lambda>statements.
            if statements = [] then T_error
            else T_bind (eat END_OF_FILE) (T_eat END_OF_FILE) (\<lambda>_. T_return))) s)"

definition T_data_file :: "string \<Rightarrow> parser \<Rightarrow> nat" where
  "T_data_file name s =
     Suc (T_bind header T_header (\<lambda>attributes.
          T_bind (data_file_loop []) T_data_file_loop (\<lambda>statements.
            if statements = [] then T_error
            else if length statements > 1 then T_error
            else T_bind (eat END_OF_FILE) (T_eat END_OF_FILE) (\<lambda>_. T_return))) s)"

lemma fits_source_file:
  assumes "214 \<le> c"
  shows "fits c 194 (source_file name) (T_source_file name)"
proof -
  from assms have c14: "14 \<le> c" by simp
  show ?thesis
    unfolding source_file_def T_source_file_def
    by (rule fits_mono, (rule fits_rules fits_header [OF c14]
          fits_source_file_loop [OF assms])+) simp
qed

lemma fits_data_file:
  assumes "30 \<le> c"
  shows "fits c 40 (data_file name) (T_data_file name)"
proof -
  from assms have c14: "14 \<le> c" by simp
  show ?thesis
    unfolding data_file_def T_data_file_def
    by (rule fits_mono, (rule fits_rules fits_header [OF c14]
          fits_data_file_loop [OF assms])+) simp
qed

lemma remaining_le: "remaining s \<le> 2 * length (tokens s) + 1"
proof -
  have "2 * (length (tokens s) - position s) \<le> 2 * length (tokens s)" by simp
  moreover have "(case current_token s of None \<Rightarrow> 0 | Some _ \<Rightarrow> 1) \<le> (1::nat)"
    by (simp split: option.splits)
  ultimately show ?thesis unfolding remaining_def by linarith
qed

text \<open>
  C9. From any parser, \<open>_source_file\<close> takes at most 428 steps for each token of the
  list and 408 more, and \<open>_data_file\<close> at most 60 for each token and 70 more, whether
  they return a node or raise: every round of every loop consumes a token. (The
  productions are total functions: each loop of the model has its termination proof.)
\<close>

theorem parse_time_linear:
  "T_source_file name s \<le> 428 * length (tokens s) + 408 \<and>
   T_data_file name s \<le> 60 * length (tokens s) + 70"
proof
  obtain r s' where f: "source_file name s = (r, s')" by (cases "source_file name s")
  have "T_source_file name s + 214 * remaining s' \<le> 214 * remaining s + 194"
    by (rule fitsD [OF fits_source_file f]) simp
  with remaining_le [of s] show "T_source_file name s \<le> 428 * length (tokens s) + 408"
    by linarith
next
  obtain r s' where f: "data_file name s = (r, s')" by (cases "data_file name s")
  have "T_data_file name s + 30 * remaining s' \<le> 30 * remaining s + 40"
    by (rule fitsD [OF fits_data_file f]) simp
  with remaining_le [of s] show "T_data_file name s \<le> 60 * length (tokens s) + 70"
    by linarith
qed

end
